theory Spec2Isabelle
  imports Complex_Main
begin

section \<open>The host audio subsystem\<close>

text \<open>
  \<^verbatim>\<open>Voice.js\<close> and \<^verbatim>\<open>synth.js\<close> drive the browser's Web Audio interface: one
  \<^verbatim>\<open>AudioContext\<close>, oscillator and gain nodes, and the automation timeline of a node's
  parameter. The host is modelled as a recording double: a clock, the table of nodes
  created so far and the list of the calls it has received. Numbers are reals (the
  rounding of IEEE doubles is not modelled). A node is named by its index in the table.
\<close>

datatype js_error = TypeError | InvalidStateError

text \<open>An automation event of a parameter: the target value and the event's time.\<close>

datatype event = SetValue real real | LinearRamp real real

fun event_time :: "event \<Rightarrow> real" where
  "event_time (SetValue v t) = t"
| "event_time (LinearRamp v t) = t"

fun same_type :: "event \<Rightarrow> event \<Rightarrow> bool" where
  "same_type (SetValue v t) (SetValue v' t') = True"
| "same_type (LinearRamp v t) (LinearRamp v' t') = True"
| "same_type e e' = False"

text \<open>
  A parameter: its timeline (events in time order) and its current-value slot, which the
  \<^verbatim>\<open>value\<close> getter reads and which the rendering of a quantum refreshes.
\<close>

record audio_param =
  events :: "event list"
  pvalue :: real

datatype node_kind = Destination | Oscillator | Gain

datatype waveform = Sine | Sawtooth

text \<open>
  A node carries the one parameter the program touches (\<^verbatim>\<open>frequency\<close> of an oscillator,
  \<^verbatim>\<open>gain\<close> of a gain node), the nodes its output is connected to, and for a scheduled
  source its start and stop times, whether its \<^verbatim>\<open>ended\<close> event has fired, and the Voice
  whose \<^verbatim>\<open>dispose\<close> is bound as the \<^verbatim>\<open>onended\<close> handler.
\<close>

record audio_node =
  kind :: node_kind
  wave :: waveform
  param :: audio_param
  outputs :: "nat list"
  startAt :: "real option"
  stopAt :: "real option"
  ended :: bool
  onended :: "nat option"

datatype call =
    CreateOscillator nat
  | CreateGain nat
  | SetValueAtTime nat real real
  | LinearRampToValueAtTime nat real real
  | CancelScheduledValues nat real
  | SetValueAttr nat real
  | SetType nat waveform
  | SetOnended nat nat
  | Connect nat nat
  | Disconnect nat
  | Start nat
  | Stop nat real
  | Ended nat "nat option"

section \<open>Voice objects and the program state\<close>

text \<open>
  A property holding a node: \<^verbatim>\<open>undefined\<close> before \<^verbatim>\<open>start()\<close> has assigned it,
  \<^verbatim>\<open>null\<close> after \<^verbatim>\<open>dispose()\<close>, a node otherwise.
\<close>

datatype handle = Undefined | Null | Ref nat

record Voice =
  frequency :: real
  maxAmp :: real
  outputNode :: nat
  attack :: real
  decay :: real
  sustain :: real
  release :: real
  osc :: handle
  osc2 :: handle
  osc3 :: handle
  osc2scale :: handle
  osc3scale :: handle
  ampEnv :: handle

text \<open>
  The whole state: the audio context \<^verbatim>\<open>mySynthCtx\<close> (clock, nodes, calls received), the
  Voice objects allocated so far (a Voice is named by its index; the \<^verbatim>\<open>onended\<close>
  handler keeps a Voice reachable after the registry has dropped it), the registry
  \<^verbatim>\<open>activeVoices\<close>, the node \<^verbatim>\<open>masterGain\<close>, and the errors that event handlers
  raised (the host reports them; nobody catches them).
\<close>

record synth =
  currentTime :: real
  nodes :: "audio_node list"
  calls :: "call list"
  voices :: "Voice list"
  activeVoices :: "int \<rightharpoonup> nat"
  masterGain :: nat
  uncaught :: "js_error list"

text \<open>How a call ends: normally, or by throwing, each with the state reached.\<close>

datatype completion = Normal synth | Throw js_error synth

fun run :: "(synth \<Rightarrow> completion) list \<Rightarrow> synth \<Rightarrow> completion" where
  "run [] s = Normal s"
| "run (f # fs) s = (case f s of Normal s' \<Rightarrow> run fs s' | Throw e s' \<Rightarrow> Throw e s')"

definition ok :: "(synth \<Rightarrow> synth) \<Rightarrow> synth \<Rightarrow> completion" where
  "ok f s = Normal (f s)"

text \<open>Calling a method through a property: a \<^verbatim>\<open>TypeError\<close> unless it holds a node.\<close>

definition via :: "handle \<Rightarrow> (nat \<Rightarrow> synth \<Rightarrow> completion) \<Rightarrow> synth \<Rightarrow> completion" where
  "via h f s = (case h of Ref n \<Rightarrow> f n s | Undefined \<Rightarrow> Throw TypeError s | Null \<Rightarrow> Throw TypeError s)"

definition upd_node :: "nat \<Rightarrow> (audio_node \<Rightarrow> audio_node) \<Rightarrow> synth \<Rightarrow> synth" where
  "upd_node n f s = s\<lparr>nodes := (nodes s)[n := f (nodes s ! n)]\<rparr>"

definition upd_voice :: "nat \<Rightarrow> (Voice \<Rightarrow> Voice) \<Rightarrow> synth \<Rightarrow> synth" where
  "upd_voice v f s = s\<lparr>voices := (voices s)[v := f (voices s ! v)]\<rparr>"

definition record_call :: "call \<Rightarrow> synth \<Rightarrow> synth" where
  "record_call c s = s\<lparr>calls := calls s @ [c]\<rparr>"

subsection \<open>Node factories\<close>

definition new_node :: "node_kind \<Rightarrow> real \<Rightarrow> audio_node" where
  "new_node k dflt =
     \<lparr>kind = k, wave = Sine, param = \<lparr>events = [], pvalue = dflt\<rparr>, outputs = [],
      startAt = None, stopAt = None, ended = False, onended = None\<rparr>"

definition createOscillator :: "synth \<Rightarrow> nat \<times> synth" where
  "createOscillator s =
     (length (nodes s),
      record_call (CreateOscillator (length (nodes s)))
        (s\<lparr>nodes := nodes s @ [new_node Oscillator 440]\<rparr>))"

definition createGain :: "synth \<Rightarrow> nat \<times> synth" where
  "createGain s =
     (length (nodes s),
      record_call (CreateGain (length (nodes s)))
        (s\<lparr>nodes := nodes s @ [new_node Gain 1]\<rparr>))"

subsection \<open>Parameter automation\<close>

text \<open>
  A new event replaces an event of its own type at its own time, and otherwise goes after
  the events that are not later than it.
\<close>

definition insert_event :: "event \<Rightarrow> event list \<Rightarrow> event list" where
  "insert_event e es =
     (let es' = filter (\<lambda>x. \<not> (same_type x e \<and> event_time x = event_time e)) es
      in takeWhile (\<lambda>x. event_time x \<le> event_time e) es' @ e #
         dropWhile (\<lambda>x. event_time x \<le> event_time e) es')"

definition upd_events :: "(event list \<Rightarrow> event list) \<Rightarrow> audio_node \<Rightarrow> audio_node" where
  "upd_events f nd = nd\<lparr>param := (param nd)\<lparr>events := f (events (param nd))\<rparr>\<rparr>"

definition setValueAtTime :: "nat \<Rightarrow> real \<Rightarrow> real \<Rightarrow> synth \<Rightarrow> synth" where
  "setValueAtTime n v t s =
     record_call (SetValueAtTime n v t) (upd_node n (upd_events (insert_event (SetValue v t))) s)"

definition linearRampToValueAtTime :: "nat \<Rightarrow> real \<Rightarrow> real \<Rightarrow> synth \<Rightarrow> synth" where
  "linearRampToValueAtTime n v t s =
     record_call (LinearRampToValueAtTime n v t)
       (upd_node n (upd_events (insert_event (LinearRamp v t))) s)"

text \<open>Cancelling removes the events at or after the given time; the slot is untouched.\<close>

definition cancelScheduledValues :: "nat \<Rightarrow> real \<Rightarrow> synth \<Rightarrow> synth" where
  "cancelScheduledValues n t s =
     record_call (CancelScheduledValues n t)
       (upd_node n (upd_events (filter (\<lambda>e. event_time e < t))) s)"

text \<open>The \<^verbatim>\<open>value\<close> getter reads the slot.\<close>

definition get_value :: "nat \<Rightarrow> synth \<Rightarrow> real" where
  "get_value n s = pvalue (param (nodes s ! n))"

text \<open>The \<^verbatim>\<open>value\<close> setter writes the slot and schedules the value at the current time.\<close>

definition set_value :: "nat \<Rightarrow> real \<Rightarrow> synth \<Rightarrow> synth" where
  "set_value n v s =
     record_call (SetValueAttr n v)
       (upd_node n (\<lambda>nd. nd\<lparr>param := \<lparr>events = insert_event (SetValue v (currentTime s))
                                                (events (param nd)),
                                     pvalue = v\<rparr>\<rparr>) s)"

text \<open>
  The value a timeline gives at time \<open>t\<close>. \<open>v0\<close> and \<open>t0\<close> are the value and time of the
  event before the list: a set-value event holds its value from its time on, a ramp runs
  linearly from the event before it to its own value at its own time and holds it after.
\<close>

fun timeline :: "event list \<Rightarrow> real \<Rightarrow> real \<Rightarrow> real \<Rightarrow> real" where
  "timeline [] v0 t0 t = v0"
| "timeline (SetValue v T # es) v0 t0 t = (if t < T then v0 else timeline es v T t)"
| "timeline (LinearRamp v T # es) v0 t0 t =
     (if t < T then v0 + (v - v0) * ((t - t0) / (T - t0)) else timeline es v T t)"

definition param_at :: "audio_param \<Rightarrow> real \<Rightarrow> real" where
  "param_at p t = timeline (events p) (pvalue p) 0 t"

subsection \<open>Node methods\<close>

definition set_type :: "nat \<Rightarrow> waveform \<Rightarrow> synth \<Rightarrow> synth" where
  "set_type n w s = record_call (SetType n w) (upd_node n (\<lambda>nd. nd\<lparr>wave := w\<rparr>) s)"

definition set_onended :: "nat \<Rightarrow> nat \<Rightarrow> synth \<Rightarrow> synth" where
  "set_onended n v s = record_call (SetOnended n v) (upd_node n (\<lambda>nd. nd\<lparr>onended := Some v\<rparr>) s)"

definition connect :: "nat \<Rightarrow> nat \<Rightarrow> synth \<Rightarrow> synth" where
  "connect n d s =
     record_call (Connect n d)
       (upd_node n (\<lambda>nd. if d \<in> set (outputs nd) then nd else nd\<lparr>outputs := outputs nd @ [d]\<rparr>) s)"

definition disconnect :: "nat \<Rightarrow> synth \<Rightarrow> synth" where
  "disconnect n s = record_call (Disconnect n) (upd_node n (\<lambda>nd. nd\<lparr>outputs := []\<rparr>) s)"

text \<open>
  \<^verbatim>\<open>start()\<close> without an argument starts a source now; a second \<^verbatim>\<open>start\<close> is an
  \<^verbatim>\<open>InvalidStateError\<close>, and only an oscillator has the method.
\<close>

definition osc_start :: "nat \<Rightarrow> synth \<Rightarrow> completion" where
  "osc_start n s =
     (if kind (nodes s ! n) \<noteq> Oscillator then Throw TypeError s
      else if startAt (nodes s ! n) \<noteq> None then Throw InvalidStateError s
      else Normal (record_call (Start n)
                     (upd_node n (\<lambda>nd. nd\<lparr>startAt := Some (currentTime s)\<rparr>) s)))"

text \<open>
  \<^verbatim>\<open>stop(when)\<close> before \<^verbatim>\<open>start\<close> is an \<^verbatim>\<open>InvalidStateError\<close>; a later call replaces
  the stop time of an earlier one (a source that has ended never fires again, whatever
  its stop time).
\<close>

definition stop_at :: "nat \<Rightarrow> real \<Rightarrow> synth \<Rightarrow> synth" where
  "stop_at n t s = record_call (Stop n t) (upd_node n (\<lambda>nd. nd\<lparr>stopAt := Some t\<rparr>) s)"

definition osc_stop :: "nat \<Rightarrow> real \<Rightarrow> synth \<Rightarrow> completion" where
  "osc_stop n t s =
     (if kind (nodes s ! n) \<noteq> Oscillator then Throw TypeError s
      else if startAt (nodes s ! n) = None then Throw InvalidStateError s
      else Normal (stop_at n t s))"

section \<open>Voice.js\<close>

definition Voice_new :: "real \<Rightarrow> real \<Rightarrow> nat \<Rightarrow> synth \<Rightarrow> nat \<times> synth" where
  "Voice_new freq amp out s =
     (length (voices s),
      s\<lparr>voices := voices s @
         [\<lparr>frequency = freq, maxAmp = amp, outputNode = out,
           attack = 0.02, decay = 0.01, sustain = 0.5, release = 0.5,
           osc = Undefined, osc2 = Undefined, osc3 = Undefined,
           osc2scale = Undefined, osc3scale = Undefined, ampEnv = Undefined\<rparr>]\<rparr>)"

definition this :: "nat \<Rightarrow> synth \<Rightarrow> Voice" where
  "this v s = voices s ! v"

definition Voice_start :: "nat \<Rightarrow> synth \<Rightarrow> completion" where
  "Voice_start v s0 =
     (let now = currentTime s0 in
      run
       [\<lambda>s. case createOscillator s of (n, s') \<Rightarrow> Normal (upd_voice v (\<lambda>x. x\<lparr>osc := Ref n\<rparr>) s'),
        \<lambda>s. via (osc (this v s)) (\<lambda>n. ok (setValueAtTime n (frequency (this v s)) now)) s,
        \<lambda>s. via (osc (this v s)) (\<lambda>n. ok (set_onended n v)) s,
        \<lambda>s. case createOscillator s of (n, s') \<Rightarrow> Normal (upd_voice v (\<lambda>x. x\<lparr>osc2 := Ref n\<rparr>) s'),
        \<lambda>s. via (osc2 (this v s)) (\<lambda>n. ok (setValueAtTime n (frequency (this v s) * 2) now)) s,
        \<lambda>s. via (osc2 (this v s)) (\<lambda>n. ok (set_type n Sawtooth)) s,
        \<lambda>s. case createGain s of (n, s') \<Rightarrow> Normal (upd_voice v (\<lambda>x. x\<lparr>osc2scale := Ref n\<rparr>) s'),
        \<lambda>s. via (osc2scale (this v s)) (\<lambda>n. ok (set_value n 0.5)) s,
        \<lambda>s. case createOscillator s of (n, s') \<Rightarrow> Normal (upd_voice v (\<lambda>x. x\<lparr>osc3 := Ref n\<rparr>) s'),
        \<lambda>s. via (osc3 (this v s)) (\<lambda>n. ok (setValueAtTime n (frequency (this v s) * 3) now)) s,
        \<lambda>s. via (osc3 (this v s)) (\<lambda>n. ok (set_type n Sawtooth)) s,
        \<lambda>s. case createGain s of (n, s') \<Rightarrow> Normal (upd_voice v (\<lambda>x. x\<lparr>osc3scale := Ref n\<rparr>) s'),
        \<lambda>s. via (osc3scale (this v s)) (\<lambda>n. ok (set_value n 0.5)) s,
        \<lambda>s. case createGain s of (n, s') \<Rightarrow> Normal (upd_voice v (\<lambda>x. x\<lparr>ampEnv := Ref n\<rparr>) s'),
        \<lambda>s. via (ampEnv (this v s)) (\<lambda>n. ok (setValueAtTime n 0 now)) s,
        \<lambda>s. via (osc (this v s)) (\<lambda>n. via (ampEnv (this v s)) (\<lambda>d. ok (connect n d))) s,
        \<lambda>s. via (osc2 (this v s)) (\<lambda>n. via (osc2scale (this v s)) (\<lambda>d. ok (connect n d))) s,
        \<lambda>s. via (osc2scale (this v s)) (\<lambda>n. via (ampEnv (this v s)) (\<lambda>d. ok (connect n d))) s,
        \<lambda>s. via (osc3 (this v s)) (\<lambda>n. via (osc3scale (this v s)) (\<lambda>d. ok (connect n d))) s,
        \<lambda>s. via (osc3scale (this v s)) (\<lambda>n. via (ampEnv (this v s)) (\<lambda>d. ok (connect n d))) s,
        \<lambda>s. via (ampEnv (this v s)) (\<lambda>n. ok (connect n (outputNode (this v s)))) s,
        \<lambda>s. via (osc (this v s)) osc_start s,
        \<lambda>s. via (osc2 (this v s)) osc_start s,
        \<lambda>s. via (osc3 (this v s)) osc_start s,
        \<lambda>s. via (ampEnv (this v s))
               (\<lambda>n. ok (linearRampToValueAtTime n (maxAmp (this v s)) (now + attack (this v s)))) s,
        \<lambda>s. via (ampEnv (this v s))
               (\<lambda>n. ok (linearRampToValueAtTime n (sustain (this v s) * maxAmp (this v s))
                          (now + attack (this v s) + decay (this v s)))) s]
       s0)"

definition Voice_stop :: "nat \<Rightarrow> synth \<Rightarrow> completion" where
  "Voice_stop v s0 =
     (let now = currentTime s0 in
      run
       [\<lambda>s. via (ampEnv (this v s)) (\<lambda>n. ok (cancelScheduledValues n now)) s,
        \<lambda>s. via (ampEnv (this v s))
               (\<lambda>n. via (ampEnv (this v s)) (\<lambda>m. ok (setValueAtTime n (get_value m s) now))) s,
        \<lambda>s. via (ampEnv (this v s))
               (\<lambda>n. ok (linearRampToValueAtTime n 0 (now + release (this v s)))) s,
        \<lambda>s. via (osc (this v s)) (\<lambda>n. osc_stop n (now + release (this v s) + 0.01)) s,
        \<lambda>s. via (osc2 (this v s)) (\<lambda>n. osc_stop n (now + release (this v s) + 0.01)) s,
        \<lambda>s. via (osc3 (this v s)) (\<lambda>n. osc_stop n (now + release (this v s) + 0.01)) s]
       s0)"

definition Voice_dispose :: "nat \<Rightarrow> synth \<Rightarrow> completion" where
  "Voice_dispose v s0 =
     run
      [\<lambda>s. via (osc (this v s)) (\<lambda>n. ok (disconnect n)) s,
       \<lambda>s. via (osc2 (this v s)) (\<lambda>n. ok (disconnect n)) s,
       \<lambda>s. via (osc3 (this v s)) (\<lambda>n. ok (disconnect n)) s,
       \<lambda>s. via (osc2scale (this v s)) (\<lambda>n. ok (disconnect n)) s,
       \<lambda>s. via (osc3scale (this v s)) (\<lambda>n. ok (disconnect n)) s,
       \<lambda>s. via (ampEnv (this v s)) (\<lambda>n. ok (disconnect n)) s,
       ok (upd_voice v (\<lambda>x. x\<lparr>osc := Null\<rparr>)),
       ok (upd_voice v (\<lambda>x. x\<lparr>osc2 := Null\<rparr>)),
       ok (upd_voice v (\<lambda>x. x\<lparr>osc3 := Null\<rparr>)),
       ok (upd_voice v (\<lambda>x. x\<lparr>osc2scale := Null\<rparr>)),
       ok (upd_voice v (\<lambda>x. x\<lparr>osc3scale := Null\<rparr>)),
       ok (upd_voice v (\<lambda>x. x\<lparr>ampEnv := Null\<rparr>))]
      s0"

section \<open>The host clock\<close>

text \<open>
  The host renders audio in quanta of 128 sample frames, here at a sample rate of 44100 Hz,
  and its clock moves by whole quanta: the clock reads \<open>t\<close> once the quantum that starts
  at \<open>t - render_quantum\<close> has been rendered. Rendering a quantum stores in every
  parameter's slot the value its timeline has at the start of that quantum, so the
  \<^verbatim>\<open>value\<close> getter returns the value of one quantum ago, and the value the slot was
  created or assigned with as long as no quantum has been rendered since. When the clock
  reaches \<open>t\<close> the host also fires the \<^verbatim>\<open>ended\<close> event of each started source whose
  stop time has come, once per source, running the handler bound to it. An error thrown by
  a handler is reported and the host goes on.
\<close>

definition render_quantum :: real where
  "render_quantum = 128 / 44100"

definition render :: "real \<Rightarrow> audio_node \<Rightarrow> audio_node" where
  "render t nd = nd\<lparr>param := (param nd)\<lparr>pvalue := param_at (param nd) t\<rparr>\<rparr>"

definition due :: "real \<Rightarrow> audio_node \<Rightarrow> bool" where
  "due t nd =
     (kind nd = Oscillator \<and> startAt nd \<noteq> None \<and> \<not> ended nd \<and>
      (case stopAt nd of None \<Rightarrow> False | Some T \<Rightarrow> T \<le> t))"

definition dispatch_ended :: "nat \<Rightarrow> synth \<Rightarrow> synth" where
  "dispatch_ended n s =
     (let s1 = record_call (Ended n (onended (nodes s ! n)))
                 (upd_node n (\<lambda>nd. nd\<lparr>ended := True\<rparr>) s)
      in case onended (nodes s ! n) of
           None \<Rightarrow> s1
         | Some v \<Rightarrow>
             (case Voice_dispose v s1 of
                Normal s2 \<Rightarrow> s2
              | Throw e s2 \<Rightarrow> s2\<lparr>uncaught := uncaught s2 @ [e]\<rparr>))"

definition fire :: "real \<Rightarrow> synth \<Rightarrow> nat \<Rightarrow> synth" where
  "fire t s n = (if due t (nodes s ! n) then dispatch_ended n s else s)"

definition advance :: "real \<Rightarrow> synth \<Rightarrow> synth" where
  "advance t s =
     (if t < currentTime s + render_quantum then s
      else foldl (fire t)
             (s\<lparr>currentTime := t, nodes := map (render (t - render_quantum)) (nodes s)\<rparr>)
             [0..<length (nodes s)])"

section \<open>synth.js\<close>

text \<open>
  The module's top level: the context with its destination node, \<^verbatim>\<open>masterGain\<close> created,
  set to 0.125 and connected to the destination, and an empty registry.
\<close>

definition synth_init :: synth where
  "synth_init =
     (let s0 = \<lparr>currentTime = 0, nodes = [new_node Destination 0], calls = [], voices = [],
                activeVoices = Map.empty, masterGain = 0, uncaught = []\<rparr>
      in case createGain s0 of
           (g, s1) \<Rightarrow> connect g 0 (set_value g 0.125 (s1\<lparr>masterGain := g\<rparr>)))"

definition mtof :: "real \<Rightarrow> real" where
  "mtof midi = 440 * 2 powr ((midi - 69) / 12)"

text \<open>
  \<^verbatim>\<open>startNote(note)\<close>; \<open>rnd\<close> is the number \<^verbatim>\<open>Math.random()\<close> returns when it is called.
\<close>

definition startNote :: "real \<Rightarrow> int \<Rightarrow> synth \<Rightarrow> completion" where
  "startNote rnd note s =
     (case activeVoices s note of
        Some v \<Rightarrow> Normal s
      | None \<Rightarrow>
          (case Voice_new (mtof (of_int note)) rnd (masterGain s) s of
             (someVoice, s1) \<Rightarrow>
               (let s2 = s1\<lparr>activeVoices := (activeVoices s1)(note \<mapsto> someVoice)\<rparr>
                in case activeVoices s2 note of
                     Some v \<Rightarrow> Voice_start v s2
                   | None \<Rightarrow> Throw TypeError s2)))"

definition stopNote :: "int \<Rightarrow> synth \<Rightarrow> completion" where
  "stopNote note s =
     (case activeVoices s note of
        None \<Rightarrow> Normal s
      | Some v \<Rightarrow>
          (case Voice_stop v s of
             Normal s1 \<Rightarrow> Normal (s1\<lparr>activeVoices := (activeVoices s1)(note := None)\<rparr>)
           | Throw e s1 \<Rightarrow> Throw e s1))"

section \<open>Lifecycle predicates\<close>

text \<open>
  The spec's \<^verbatim>\<open>noteOn(noteId, frequency, amplitude)\<close> is the call
  \<^verbatim>\<open>startNote(noteId, frequency, amplitude)\<close>: \<^verbatim>\<open>startNote\<close> declares one parameter,
  and surplus arguments of a call are dropped.
\<close>

definition noteOn :: "int \<Rightarrow> real \<Rightarrow> real \<Rightarrow> real \<Rightarrow> synth \<Rightarrow> completion" where
  "noteOn noteId freq amp rnd s = startNote rnd noteId s"

fun state_of :: "completion \<Rightarrow> synth" where
  "state_of (Normal s) = s"
| "state_of (Throw e s) = s"

definition is_node :: "synth \<Rightarrow> handle \<Rightarrow> bool" where
  "is_node s h = (case h of Ref n \<Rightarrow> n < length (nodes s) | Undefined \<Rightarrow> False | Null \<Rightarrow> False)"

definition running :: "synth \<Rightarrow> handle \<Rightarrow> bool" where
  "running s h =
     (case h of
        Ref n \<Rightarrow> n < length (nodes s) \<and> kind (nodes s ! n) = Oscillator \<and>
                 startAt (nodes s ! n) \<noteq> None
      | Undefined \<Rightarrow> False
      | Null \<Rightarrow> False)"

text \<open>Sounding: \<^verbatim>\<open>start()\<close> has run and \<^verbatim>\<open>dispose()\<close> has not.\<close>

definition sounding :: "nat \<Rightarrow> synth \<Rightarrow> bool" where
  "sounding v s =
     (v < length (voices s) \<and>
      running s (osc (this v s)) \<and> running s (osc2 (this v s)) \<and> running s (osc3 (this v s)) \<and>
      is_node s (osc2scale (this v s)) \<and> is_node s (osc3scale (this v s)) \<and>
      is_node s (ampEnv (this v s)))"

text \<open>
  The fundamental of Voice \<open>v\<close> is the one source whose \<^verbatim>\<open>ended\<close> handler is the
  \<^verbatim>\<open>dispose\<close> of \<open>v\<close>, and it has not ended.
\<close>

definition bound :: "nat \<Rightarrow> synth \<Rightarrow> bool" where
  "bound v s =
     ((case osc (this v s) of
         Ref n \<Rightarrow> n < length (nodes s) \<and> onended (nodes s ! n) = Some v \<and>
                  \<not> ended (nodes s ! n)
       | Undefined \<Rightarrow> False
       | Null \<Rightarrow> False) \<and>
      (\<forall>n < length (nodes s). onended (nodes s ! n) = Some v \<longrightarrow> osc (this v s) = Ref n))"

definition halt_time :: "nat \<Rightarrow> synth \<Rightarrow> real option" where
  "halt_time v s =
     (case osc (this v s) of
        Ref n \<Rightarrow> if n < length (nodes s) then stopAt (nodes s ! n) else None
      | Undefined \<Rightarrow> None
      | Null \<Rightarrow> None)"

text \<open>Live: sounding, and \<^verbatim>\<open>stop()\<close> has not been called.\<close>

definition live :: "nat \<Rightarrow> synth \<Rightarrow> bool" where
  "live v s = (sounding v s \<and> bound v s \<and> halt_time v s = None)"

text \<open>Releasing: sounding, with the halt of the fundamental scheduled at \<open>T\<close>.\<close>

definition releasing :: "nat \<Rightarrow> real \<Rightarrow> synth \<Rightarrow> bool" where
  "releasing v T s = (sounding v s \<and> bound v s \<and> halt_time v s = Some T)"

definition disposed :: "nat \<Rightarrow> synth \<Rightarrow> bool" where
  "disposed v s =
     (v < length (voices s) \<and>
      osc (this v s) = Null \<and> osc2 (this v s) = Null \<and> osc3 (this v s) = Null \<and>
      osc2scale (this v s) = Null \<and> osc3scale (this v s) = Null \<and> ampEnv (this v s) = Null)"

text \<open>The times the host has invoked the \<^verbatim>\<open>dispose\<close> of Voice \<open>v\<close>.\<close>

definition dispose_calls :: "nat \<Rightarrow> synth \<Rightarrow> call list" where
  "dispose_calls v s = filter (\<lambda>c. case c of Ended n h \<Rightarrow> h = Some v | _ \<Rightarrow> False) (calls s)"

text \<open>
  What \<^verbatim>\<open>dispose()\<close> of Voice \<open>u\<close> leaves alone, whether it returns or throws: every
  node field but the connections, which it only removes, every other Voice, and the record
  of the handlers invoked.
\<close>

definition frame :: "nat \<Rightarrow> synth \<Rightarrow> synth \<Rightarrow> bool" where
  "frame u s s' =
     (length (nodes s') = length (nodes s) \<and> length (voices s') = length (voices s) \<and>
      activeVoices s' = activeVoices s \<and> currentTime s' = currentTime s \<and>
      masterGain s' = masterGain s \<and> uncaught s' = uncaught s \<and>
      (\<forall>m. kind (nodes s' ! m) = kind (nodes s ! m) \<and>
           startAt (nodes s' ! m) = startAt (nodes s ! m) \<and>
           stopAt (nodes s' ! m) = stopAt (nodes s ! m) \<and>
           onended (nodes s' ! m) = onended (nodes s ! m) \<and>
           ended (nodes s' ! m) = ended (nodes s ! m) \<and>
           param (nodes s' ! m) = param (nodes s ! m) \<and>
           (outputs (nodes s ! m) = [] \<longrightarrow> outputs (nodes s' ! m) = [])) \<and>
      (\<forall>w. w \<noteq> u \<longrightarrow> this w s' = this w s) \<and>
      (\<forall>w. dispose_calls w s' = dispose_calls w s))"

text \<open>Spent: disposed, and every source bound to the Voice has fired.\<close>

definition spent :: "nat \<Rightarrow> synth \<Rightarrow> bool" where
  "spent v s =
     (disposed v s \<and>
      (\<forall>n < length (nodes s). onended (nodes s ! n) = Some v \<longrightarrow> ended (nodes s ! n)))"


text \<open>The first half of \<^verbatim>\<open>advance\<close>: the clock set and the slots refreshed.\<close>

definition rendered :: "real \<Rightarrow> synth \<Rightarrow> synth" where
  "rendered t s =
     s\<lparr>currentTime := t, nodes := map (render (t - render_quantum)) (nodes s)\<rparr>"

text \<open>No \<^verbatim>\<open>ended\<close> handler is bound to the two harmonics of Voice \<open>v\<close>.\<close>

definition harmonics_unbound :: "nat \<Rightarrow> synth \<Rightarrow> bool" where
  "harmonics_unbound v s =
     (\<forall>n < length (nodes s). osc2 (this v s) = Ref n \<or> osc3 (this v s) = Ref n \<longrightarrow>
        onended (nodes s ! n) = None)"

text \<open>
  The invariant of the registry: every entry holds a live Voice with unbound harmonics and
  release 0.5, two notes never hold the same Voice, and every bound handler belongs to a
  Voice that exists.
\<close>

definition consistent :: "synth \<Rightarrow> bool" where
  "consistent s =
     ((\<forall>k v. activeVoices s k = Some v \<longrightarrow>
         live v s \<and> harmonics_unbound v s \<and> release (this v s) = 0.5) \<and>
      (\<forall>k k' v. activeVoices s k = Some v \<and> activeVoices s k' = Some v \<longrightarrow> k = k') \<and>
      (\<forall>n < length (nodes s). \<forall>v. onended (nodes s ! n) = Some v \<longrightarrow> v < length (voices s)))"

text \<open>
  What the page does over time: \<^verbatim>\<open>startNote\<close> (with the number \<^verbatim>\<open>Math.random()\<close> gives),
  \<^verbatim>\<open>stopNote\<close>, and the host clock reaching a time. \<open>after ins\<close> is the state the inputs
  \<open>ins\<close> lead to from the initial state.
\<close>

datatype input = NoteOn real int | NoteOff int | Tick real

fun step :: "input \<Rightarrow> synth \<Rightarrow> synth" where
  "step (NoteOn rnd k) s = state_of (startNote rnd k s)"
| "step (NoteOff k) s = state_of (stopNote k s)"
| "step (Tick t) s = advance t s"

definition after :: "input list \<Rightarrow> synth" where
  "after ins = foldl (\<lambda>s i. step i s) synth_init ins"

text \<open>
  The gain the host applies through node \<open>e\<close> at time \<open>\<tau>\<close> when no call is made
  after state \<open>s\<close>: the value the parameter's timeline has there. (Rendering computes
  it for every sample frame; the slot only keeps the value at the start of a quantum.)
\<close>

definition gain_at :: "synth \<Rightarrow> nat \<Rightarrow> real \<Rightarrow> real" where
  "gain_at s e \<tau> = param_at (param (nodes s ! e)) \<tau>"

text \<open>
  The envelope over time of a Voice started in \<open>sa\<close> and stopped in \<open>sb\<close>: the timeline
  that \<^verbatim>\<open>start()\<close> left until the stop time, and the timeline that \<^verbatim>\<open>stop()\<close> left from
  then on.
\<close>

definition envelope :: "synth \<Rightarrow> synth \<Rightarrow> nat \<Rightarrow> real \<Rightarrow> real" where
  "envelope sa sb e \<tau> =
     (if \<tau> < currentTime sb then gain_at sa e \<tau> else gain_at sb e \<tau>)"

text \<open>
  Closed forms used in the proofs: the attack and decay ramps scheduled at \<open>t0\<close> for peak
  \<open>A\<close> (0.02 s up to \<open>A\<close>, 0.01 s down to \<open>A / 2\<close>), and the release ramp from \<open>V\<close> at
  \<open>T1\<close> (0.5 s down to 0).
\<close>

definition attack_decay :: "real \<Rightarrow> real \<Rightarrow> real \<Rightarrow> real" where
  "attack_decay A t0 \<tau> = A * min 1 (max 0 ((\<tau> - t0) * 50)) - A / 2 * min 1 (max 0 ((\<tau> - t0 - 0.02) * 100))"

definition release_ramp :: "real \<Rightarrow> real \<Rightarrow> real \<Rightarrow> real" where
  "release_ramp V T1 \<tau> = V * (1 - min 1 (max 0 ((\<tau> - T1) * 2)))"

text \<open>A state to try things on: from the initial state, \<^verbatim>\<open>startNote(60)\<close> with 0.8 drawn.\<close>

definition held60 :: synth where
  "held60 = state_of (startNote 0.8 60 synth_init)"

text \<open>The calls that act on the parameter of node \<open>n\<close>.\<close>

fun automates :: "nat \<Rightarrow> call \<Rightarrow> bool" where
  "automates n (SetValueAtTime m v t) = (m = n)"
| "automates n (LinearRampToValueAtTime m v t) = (m = n)"
| "automates n (CancelScheduledValues m t) = (m = n)"
| "automates n (SetValueAttr m v) = (m = n)"
| "automates n c = False"

section \<open>Frame lemmas\<close>

lemma record_call_simps [simp]:
  "nodes (record_call c s) = nodes s"
  "voices (record_call c s) = voices s"
  "currentTime (record_call c s) = currentTime s"
  "activeVoices (record_call c s) = activeVoices s"
  "masterGain (record_call c s) = masterGain s"
  "uncaught (record_call c s) = uncaught s"
  "calls (record_call c s) = calls s @ [c]"
  by (simp_all add: record_call_def)

lemma upd_node_simps [simp]:
  "length (nodes (upd_node n f s)) = length (nodes s)"
  "voices (upd_node n f s) = voices s"
  "currentTime (upd_node n f s) = currentTime s"
  "activeVoices (upd_node n f s) = activeVoices s"
  "masterGain (upd_node n f s) = masterGain s"
  "uncaught (upd_node n f s) = uncaught s"
  "calls (upd_node n f s) = calls s"
  by (simp_all add: upd_node_def)

lemma upd_voice_simps [simp]:
  "nodes (upd_voice v f s) = nodes s"
  "length (voices (upd_voice v f s)) = length (voices s)"
  "currentTime (upd_voice v f s) = currentTime s"
  "activeVoices (upd_voice v f s) = activeVoices s"
  "masterGain (upd_voice v f s) = masterGain s"
  "uncaught (upd_voice v f s) = uncaught s"
  "calls (upd_voice v f s) = calls s"
  by (simp_all add: upd_voice_def)

lemma upd_node_nth:
  "nodes (upd_node n f s) ! m =
     (if m = n \<and> n < length (nodes s) then f (nodes s ! n) else nodes s ! m)"
  by (cases "n < length (nodes s)")
     (simp_all add: upd_node_def nth_list_update list_update_beyond)

lemma upd_node_keeps:
  "(\<And>nd. g (f nd) = g nd) \<Longrightarrow> g (nodes (upd_node n f s) ! m) = g (nodes s ! m)"
  by (simp add: upd_node_nth)

lemmas upd_node_kind [simp] = upd_node_keeps [where g = kind]
lemmas upd_node_startAt [simp] = upd_node_keeps [where g = startAt]
lemmas upd_node_stopAt [simp] = upd_node_keeps [where g = stopAt]
lemmas upd_node_ended [simp] = upd_node_keeps [where g = ended]
lemmas upd_node_onended [simp] = upd_node_keeps [where g = onended]
lemmas upd_node_outputs [simp] = upd_node_keeps [where g = outputs]
lemmas upd_node_param [simp] = upd_node_keeps [where g = param]
lemmas upd_node_pvalue [simp] = upd_node_keeps [where g = "\<lambda>nd. pvalue (param nd)"]
lemmas upd_node_events [simp] = upd_node_keeps [where g = "\<lambda>nd. events (param nd)"]

lemma upd_events_simps [simp]:
  "kind (upd_events F nd) = kind nd"
  "wave (upd_events F nd) = wave nd"
  "outputs (upd_events F nd) = outputs nd"
  "startAt (upd_events F nd) = startAt nd"
  "stopAt (upd_events F nd) = stopAt nd"
  "ended (upd_events F nd) = ended nd"
  "onended (upd_events F nd) = onended nd"
  "pvalue (param (upd_events F nd)) = pvalue (param nd)"
  "events (param (upd_events F nd)) = F (events (param nd))"
  by (simp_all add: upd_events_def)

lemma this_simps [simp]:
  "this v (record_call c s) = this v s"
  "this v (upd_node n f s) = this v s"
  by (simp_all add: this_def)

lemma this_upd_voice:
  "this v (upd_voice w f s) = (if v = w \<and> w < length (voices s) then f (this w s) else this v s)"
  by (cases "w < length (voices s)")
     (simp_all add: this_def upd_voice_def nth_list_update list_update_beyond)

lemmas op_defs = setValueAtTime_def linearRampToValueAtTime_def cancelScheduledValues_def
  get_value_def set_value_def set_type_def set_onended_def connect_def disconnect_def
  stop_at_def

lemmas call_defs = ok_def via_def osc_start_def osc_stop_def

section \<open>Effects of the Voice methods\<close>

lemma Voice_start_effect:
  fixes s v
  defines "N \<equiv> length (nodes s)" and "x \<equiv> voices s ! v" and "now \<equiv> currentTime s"
  assumes v: "v < length (voices s)" and ad: "0 < attack x" "0 < decay x"
  shows "Voice_start v s = Normal
    (s\<lparr>voices := (voices s)[v := x\<lparr>osc := Ref N, osc2 := Ref (Suc N), osc2scale := Ref (Suc (Suc N)),
           osc3 := Ref (Suc (Suc (Suc N))), osc3scale := Ref (Suc (Suc (Suc (Suc N)))),
           ampEnv := Ref (Suc (Suc (Suc (Suc (Suc N)))))\<rparr>],
       nodes := nodes s @
         [\<lparr>kind = Oscillator, wave = Sine,
           param = \<lparr>events = [SetValue (frequency x) now], pvalue = 440\<rparr>,
           outputs = [Suc (Suc (Suc (Suc (Suc N))))], startAt = Some now, stopAt = None,
           ended = False, onended = Some v\<rparr>,
          \<lparr>kind = Oscillator, wave = Sawtooth,
           param = \<lparr>events = [SetValue (frequency x * 2) now], pvalue = 440\<rparr>,
           outputs = [Suc (Suc N)], startAt = Some now, stopAt = None,
           ended = False, onended = None\<rparr>,
          \<lparr>kind = Gain, wave = Sine,
           param = \<lparr>events = [SetValue (1 / 2) now], pvalue = 1 / 2\<rparr>,
           outputs = [Suc (Suc (Suc (Suc (Suc N))))], startAt = None, stopAt = None,
           ended = False, onended = None\<rparr>,
          \<lparr>kind = Oscillator, wave = Sawtooth,
           param = \<lparr>events = [SetValue (frequency x * 3) now], pvalue = 440\<rparr>,
           outputs = [Suc (Suc (Suc (Suc N)))], startAt = Some now, stopAt = None,
           ended = False, onended = None\<rparr>,
          \<lparr>kind = Gain, wave = Sine,
           param = \<lparr>events = [SetValue (1 / 2) now], pvalue = 1 / 2\<rparr>,
           outputs = [Suc (Suc (Suc (Suc (Suc N))))], startAt = None, stopAt = None,
           ended = False, onended = None\<rparr>,
          \<lparr>kind = Gain, wave = Sine,
           param = \<lparr>events = [SetValue 0 now, LinearRamp (maxAmp x) (now + attack x),
                              LinearRamp (sustain x * maxAmp x) (now + attack x + decay x)],
                    pvalue = 1\<rparr>,
           outputs = [outputNode x], startAt = None, stopAt = None,
           ended = False, onended = None\<rparr>],
       calls := calls s @
         [CreateOscillator N, SetValueAtTime N (frequency x) now, SetOnended N v,
          CreateOscillator (Suc N), SetValueAtTime (Suc N) (frequency x * 2) now,
          SetType (Suc N) Sawtooth,
          CreateGain (Suc (Suc N)), SetValueAttr (Suc (Suc N)) (1 / 2),
          CreateOscillator (Suc (Suc (Suc N))),
          SetValueAtTime (Suc (Suc (Suc N))) (frequency x * 3) now,
          SetType (Suc (Suc (Suc N))) Sawtooth,
          CreateGain (Suc (Suc (Suc (Suc N)))), SetValueAttr (Suc (Suc (Suc (Suc N)))) (1 / 2),
          CreateGain (Suc (Suc (Suc (Suc (Suc N))))),
          SetValueAtTime (Suc (Suc (Suc (Suc (Suc N))))) 0 now,
          Connect N (Suc (Suc (Suc (Suc (Suc N))))),
          Connect (Suc N) (Suc (Suc N)),
          Connect (Suc (Suc N)) (Suc (Suc (Suc (Suc (Suc N))))),
          Connect (Suc (Suc (Suc N))) (Suc (Suc (Suc (Suc N)))),
          Connect (Suc (Suc (Suc (Suc N)))) (Suc (Suc (Suc (Suc (Suc N))))),
          Connect (Suc (Suc (Suc (Suc (Suc N))))) (outputNode x),
          Start N, Start (Suc N), Start (Suc (Suc (Suc N))),
          LinearRampToValueAtTime (Suc (Suc (Suc (Suc (Suc N))))) (maxAmp x) (now + attack x),
          LinearRampToValueAtTime (Suc (Suc (Suc (Suc (Suc N))))) (sustain x * maxAmp x)
            (now + attack x + decay x)]\<rparr>)"
  using v ad unfolding N_def x_def now_def
  by (simp add: Voice_start_def Let_def op_defs call_defs createOscillator_def createGain_def
      upd_node_def upd_voice_def record_call_def this_def new_node_def upd_events_def
      insert_event_def nth_append list_update_append)

lemma Voice_stop_effect:
  assumes "ampEnv (this v s) = Ref e" "osc (this v s) = Ref a"
    "osc2 (this v s) = Ref b" "osc3 (this v s) = Ref c"
    "kind (nodes s ! a) = Oscillator" "kind (nodes s ! b) = Oscillator"
    "kind (nodes s ! c) = Oscillator"
    "startAt (nodes s ! a) = Some ta" "startAt (nodes s ! b) = Some tb"
    "startAt (nodes s ! c) = Some tc"
  shows "Voice_stop v s = Normal
    (stop_at c (currentTime s + release (this v s) + 0.01)
      (stop_at b (currentTime s + release (this v s) + 0.01)
        (stop_at a (currentTime s + release (this v s) + 0.01)
          (linearRampToValueAtTime e 0 (currentTime s + release (this v s))
            (setValueAtTime e (get_value e s) (currentTime s)
              (cancelScheduledValues e (currentTime s) s))))))"
  using assms
  by (simp add: Voice_stop_def Let_def op_defs call_defs)


lemma Voice_stop_unstarted:
  "ampEnv (this v s) = Undefined \<or> ampEnv (this v s) = Null \<Longrightarrow> Voice_stop v s = Throw TypeError s"
  by (auto simp add: Voice_stop_def Let_def call_defs)

section \<open>Frequency mapping\<close>

lemma two_powr_quarter_fourth: "(2 powr (- 3 / 4) :: real) ^ 4 = 1 / 8"
proof -
  have "(2 powr (- 3 / 4) :: real) ^ 4 = (2 powr (- 3 / 4)) powr (of_nat 4)"
    by (rule powr_realpow [symmetric]) simp
  also have "\<dots> = 2 powr (- 3 / 4 * 4)"
    by (simp add: powr_powr)
  also have "\<dots> = 2 powr (- 3)"
    by simp
  also have "\<dots> = 1 / 8"
    by (simp add: powr_minus_divide)
  finally show ?thesis .
qed

lemma two_powr_quarter_bounds:
  "0.5946 < (2 powr (- 3 / 4) :: real)" "(2 powr (- 3 / 4) :: real) < 0.59461"
proof -
  let ?x = "2 powr (- 3 / 4) :: real"
  have pos: "0 \<le> ?x" by simp
  have "(0.5946 :: real) ^ 4 < ?x ^ 4"
    unfolding two_powr_quarter_fourth by (simp add: power4_eq_xxxx)
  then show "0.5946 < ?x"
    using pos by (rule power_less_imp_less_base)
  have "?x ^ 4 < (0.59461 :: real) ^ 4"
    unfolding two_powr_quarter_fourth by (simp add: power4_eq_xxxx)
  then show "?x < 0.59461"
    by (rule power_less_imp_less_base) simp
qed

lemma mtof_strict_mono: "m < n \<Longrightarrow> mtof m < mtof n"
proof -
  assume "m < n"
  then have "(m - 69) / 12 < (n - 69) / 12" by simp
  then have "(2::real) powr ((m - 69) / 12) < 2 powr ((n - 69) / 12)"
    by (rule powr_less_mono) simp
  then show ?thesis by (simp add: mtof_def)
qed

text \<open>
  C10: \<^verbatim>\<open>mtof(69)\<close> is exactly 440, \<^verbatim>\<open>mtof(60)\<close> is within 0.01 Hz of 261.63 Hz, and
  \<^verbatim>\<open>mtof\<close> is strictly increasing in the note number.
\<close>

theorem mtof_correct:
  "mtof 69 = 440 \<and> \<bar>mtof 60 - 261.63\<bar> \<le> 0.01 \<and> (\<forall>m n. m < n \<longrightarrow> mtof m < mtof n)"
proof (intro conjI allI impI)
  show "mtof 69 = 440" by (simp add: mtof_def)
  have "mtof 60 = 440 * 2 powr (- 3 / 4)" by (simp add: mtof_def)
  then show "\<bar>mtof 60 - 261.63\<bar> \<le> 0.01"
    using two_powr_quarter_bounds by simp
  fix m n :: real assume "m < n"
  then show "mtof m < mtof n" by (rule mtof_strict_mono)
qed

theorem mtof_correct_witness: "(60::real) < 61 \<and> mtof 60 < mtof 61"
proof -
  have "(60::real) < 61 \<longrightarrow> mtof 60 < mtof 61"
    using mtof_correct by blast
  then show ?thesis by simp
qed

section \<open>Construction\<close>

text \<open>
  C7, as the code has it: the constructor validates nothing. Whatever the frequency and
  the amplitude, it allocates the Voice, stores both numbers unchanged and sets the four
  envelope constants; it has no failing path.
\<close>

theorem constructor_stores_unchecked:
  "fst (Voice_new freq amp out s) = length (voices s) \<and>
   voices (snd (Voice_new freq amp out s)) =
     voices s @ [this (length (voices s)) (snd (Voice_new freq amp out s))] \<and>
   frequency (this (length (voices s)) (snd (Voice_new freq amp out s))) = freq \<and>
   maxAmp (this (length (voices s)) (snd (Voice_new freq amp out s))) = amp"
  by (simp add: Voice_new_def this_def)

text \<open>
  C7 as stated fails: constructing with frequency -10 and amplitude 1.5 yields a Voice
  that holds exactly these values.
\<close>

theorem constructor_accepts_invalid:
  "frequency (this (fst (Voice_new (- 10) 1.5 1 synth_init)) (snd (Voice_new (- 10) 1.5 1 synth_init))) = - 10 \<and>
   maxAmp (this (fst (Voice_new (- 10) 1.5 1 synth_init)) (snd (Voice_new (- 10) 1.5 1 synth_init))) = 1.5"
  by (simp add: Voice_new_def this_def)

lemma Voice_new_simps [simp]:
  "fst (Voice_new freq amp out s) = length (voices s)"
  "nodes (snd (Voice_new freq amp out s)) = nodes s"
  "calls (snd (Voice_new freq amp out s)) = calls s"
  "currentTime (snd (Voice_new freq amp out s)) = currentTime s"
  "activeVoices (snd (Voice_new freq amp out s)) = activeVoices s"
  "masterGain (snd (Voice_new freq amp out s)) = masterGain s"
  "uncaught (snd (Voice_new freq amp out s)) = uncaught s"
  "length (voices (snd (Voice_new freq amp out s))) = Suc (length (voices s))"
  by (simp_all add: Voice_new_def)

lemma Voice_new_this:
  "this (length (voices s)) (snd (Voice_new freq amp out s)) =
     \<lparr>frequency = freq, maxAmp = amp, outputNode = out,
      attack = 0.02, decay = 0.01, sustain = 0.5, release = 0.5,
      osc = Undefined, osc2 = Undefined, osc3 = Undefined,
      osc2scale = Undefined, osc3scale = Undefined, ampEnv = Undefined\<rparr>"
  by (simp add: Voice_new_def this_def)

text \<open>
  C3: on a Voice just constructed, \<^verbatim>\<open>start()\<close> returns normally; the envelope's timeline
  is then exactly: value 0 at the current time, a linear ramp to the peak amplitude ending
  0.02 s later, and a linear ramp to half the peak amplitude ending a further 0.01 s
  later; these are the three calls it makes on the envelope gain, in this order. The
  constructor has set attack 0.02, decay 0.01, sustain 0.5 and release 0.5.
\<close>

theorem start_schedules_attack_decay:
  "attack (this (length (voices s)) (snd (Voice_new freq amp out s))) = 0.02 \<and>
   decay (this (length (voices s)) (snd (Voice_new freq amp out s))) = 0.01 \<and>
   sustain (this (length (voices s)) (snd (Voice_new freq amp out s))) = 0.5 \<and>
   release (this (length (voices s)) (snd (Voice_new freq amp out s))) = 0.5 \<and>
   (\<exists>s'. Voice_start (length (voices s)) (snd (Voice_new freq amp out s)) = Normal s' \<and>
      ampEnv (this (length (voices s)) s') = Ref (length (nodes s) + 5) \<and>
      events (param (nodes s' ! (length (nodes s) + 5))) =
        [SetValue 0 (currentTime s),
         LinearRamp amp (currentTime s + 0.02),
         LinearRamp (0.5 * amp) (currentTime s + 0.02 + 0.01)] \<and>
      filter (automates (length (nodes s) + 5)) (calls s') =
        filter (automates (length (nodes s) + 5)) (calls s) @
        [SetValueAtTime (length (nodes s) + 5) 0 (currentTime s),
         LinearRampToValueAtTime (length (nodes s) + 5) amp (currentTime s + 0.02),
         LinearRampToValueAtTime (length (nodes s) + 5) (0.5 * amp) (currentTime s + 0.02 + 0.01)])"
proof -
  let ?s1 = "snd (Voice_new freq amp out s)"
  let ?v = "length (voices s)"
  note x = Voice_new_this [of s freq amp out, unfolded this_def]
  have pre: "?v < length (voices ?s1)" "0 < attack (voices ?s1 ! ?v)" "0 < decay (voices ?s1 ! ?v)"
    by (simp_all add: x)
  have e: "length (nodes s) + 5 = Suc (Suc (Suc (Suc (Suc (length (nodes s))))))" by simp
  note eq = Voice_start_effect [OF pre]
  show ?thesis
    unfolding e by (simp add: eq x this_def nth_append)
qed

section \<open>Stopping\<close>

lemma insert_event_last:
  assumes "\<forall>x \<in> set es. event_time x \<le> event_time e \<and> \<not> (same_type x e \<and> event_time x = event_time e)"
  shows "insert_event e es = es @ [e]"
proof -
  have f: "filter (\<lambda>x. \<not> (same_type x e \<and> event_time x = event_time e)) es = es"
    using assms by (simp add: filter_id_conv)
  have t: "takeWhile (\<lambda>x. event_time x \<le> event_time e) es = es"
    using assms by (simp add: takeWhile_eq_all_conv)
  have d: "dropWhile (\<lambda>x. event_time x \<le> event_time e) es = []"
    using assms by simp
  show ?thesis unfolding insert_event_def Let_def f t d by simp
qed

lemma events_upd_events:
  "events (param (nodes (upd_node n (upd_events F) s) ! m)) =
     (if m = n \<and> n < length (nodes s) then F (events (param (nodes s ! n)))
      else events (param (nodes s ! m)))"
  by (simp add: upd_node_nth)

lemma stopAt_upd_node:
  "stopAt (nodes (upd_node n (\<lambda>nd. nd\<lparr>stopAt := Some t\<rparr>) s) ! m) =
     (if m = n \<and> n < length (nodes s) then Some t else stopAt (nodes s ! m))"
  by (simp add: upd_node_nth)

lemma soundingE:
  assumes "sounding v s"
  obtains a b c g h e ta tb tc where
    "v < length (voices s)"
    "osc (this v s) = Ref a" "osc2 (this v s) = Ref b" "osc3 (this v s) = Ref c"
    "osc2scale (this v s) = Ref g" "osc3scale (this v s) = Ref h" "ampEnv (this v s) = Ref e"
    "a < length (nodes s)" "b < length (nodes s)" "c < length (nodes s)"
    "g < length (nodes s)" "h < length (nodes s)" "e < length (nodes s)"
    "kind (nodes s ! a) = Oscillator" "kind (nodes s ! b) = Oscillator"
    "kind (nodes s ! c) = Oscillator"
    "startAt (nodes s ! a) = Some ta" "startAt (nodes s ! b) = Some tb"
    "startAt (nodes s ! c) = Some tc"
  using assms unfolding sounding_def running_def is_node_def
  by (auto split: handle.splits)

lemma stop_events:
  assumes "e < length (nodes s)" "0 \<le> r"
  shows "events (param (nodes (linearRampToValueAtTime e 0 (currentTime s + r)
            (setValueAtTime e x (currentTime s)
              (cancelScheduledValues e (currentTime s) s))) ! e)) =
         filter (\<lambda>x. event_time x < currentTime s) (events (param (nodes s ! e))) @
           [SetValue x (currentTime s), LinearRamp 0 (currentTime s + r)]"
proof -
  let ?now = "currentTime s"
  let ?old = "filter (\<lambda>x. event_time x < ?now) (events (param (nodes s ! e)))"
  have 1: "insert_event (SetValue x ?now) ?old = ?old @ [SetValue x ?now]"
    by (rule insert_event_last) auto
  have 2: "insert_event (LinearRamp 0 (?now + r)) (?old @ [SetValue x ?now]) =
             ?old @ [SetValue x ?now, LinearRamp 0 (?now + r)]"
    using assms(2) by (subst insert_event_last) auto
  show ?thesis
    using assms(1) by (simp add: op_defs events_upd_events 1 2)
qed

text \<open>
  On a sounding Voice whose release is 0.5, \<^verbatim>\<open>stop()\<close> returns normally after making
  exactly these calls, in this order: cancel the envelope's scheduled values from the
  current time, set the value the envelope's \<^verbatim>\<open>value\<close> getter returns at the current
  time, ramp linearly to 0 ending 0.5 s later, and stop each of the three oscillators at
  the current time plus 0.5 + 0.01. The envelope's timeline is then the events before the
  current time followed by that pin and that ramp.
\<close>

lemma Voice_stop_calls:
  assumes "sounding v s" and "release (this v s) = 0.5"
  shows "\<exists>e a b c s'.
     ampEnv (this v s) = Ref e \<and> osc (this v s) = Ref a \<and>
     osc2 (this v s) = Ref b \<and> osc3 (this v s) = Ref c \<and>
     Voice_stop v s = Normal s' \<and>
     calls s' = calls s @
       [CancelScheduledValues e (currentTime s),
        SetValueAtTime e (get_value e s) (currentTime s),
        LinearRampToValueAtTime e 0 (currentTime s + 0.5),
        Stop a (currentTime s + 0.5 + 0.01),
        Stop b (currentTime s + 0.5 + 0.01),
        Stop c (currentTime s + 0.5 + 0.01)] \<and>
     events (param (nodes s' ! e)) =
       filter (\<lambda>x. event_time x < currentTime s) (events (param (nodes s ! e))) @
       [SetValue (get_value e s) (currentTime s), LinearRamp 0 (currentTime s + 0.5)] \<and>
     stopAt (nodes s' ! a) = Some (currentTime s + 0.5 + 0.01) \<and>
     stopAt (nodes s' ! b) = Some (currentTime s + 0.5 + 0.01) \<and>
     stopAt (nodes s' ! c) = Some (currentTime s + 0.5 + 0.01)"
proof -
  from assms(1) obtain a b c e ta tb tc where h:
    "osc (this v s) = Ref a" "osc2 (this v s) = Ref b" "osc3 (this v s) = Ref c"
    "ampEnv (this v s) = Ref e"
    "a < length (nodes s)" "b < length (nodes s)" "c < length (nodes s)" "e < length (nodes s)"
    "kind (nodes s ! a) = Oscillator" "kind (nodes s ! b) = Oscillator"
    "kind (nodes s ! c) = Oscillator"
    "startAt (nodes s ! a) = Some ta" "startAt (nodes s ! b) = Some tb"
    "startAt (nodes s ! c) = Some tc"
    by (rule soundingE)
  note eq = Voice_stop_effect [OF h(4) h(1) h(2) h(3) h(9-14), unfolded assms(2)]
  let ?now = "currentTime s"
  let ?s3 = "linearRampToValueAtTime e 0 (?now + 1 / 2)
            (setValueAtTime e (get_value e s) ?now (cancelScheduledValues e ?now s))"
  have ev: "events (param (nodes ?s3 ! e)) =
       filter (\<lambda>x. event_time x < ?now) (events (param (nodes s ! e))) @
       [SetValue (get_value e s) ?now, LinearRamp 0 (?now + 1 / 2)]"
    using stop_events [OF h(8), of "1 / 2" "get_value e s"] by simp
  have len: "length (nodes ?s3) = length (nodes s)" by (simp add: op_defs)
  have cl: "calls ?s3 = calls s @
       [CancelScheduledValues e ?now, SetValueAtTime e (get_value e s) ?now,
        LinearRampToValueAtTime e 0 (?now + 1 / 2)]" by (simp add: op_defs)
  have "events (param (nodes (stop_at c (?now + 1 / 2 + 1 / 100)
      (stop_at b (?now + 1 / 2 + 1 / 100) (stop_at a (?now + 1 / 2 + 1 / 100) ?s3))) ! e))
      = events (param (nodes ?s3 ! e))"
    by (simp add: stop_at_def)
  with ev len cl show ?thesis
    using h(1-8)
    by (simp add: eq) (simp add: stop_at_def stopAt_upd_node)
qed

section \<open>Starting, and the registry's \<^verbatim>\<open>startNote\<close>\<close>

lemma synth_init_simps [simp]:
  "voices synth_init = []"
  "length (nodes synth_init) = 2"
  "activeVoices synth_init = Map.empty"
  "currentTime synth_init = 0"
  "masterGain synth_init = 1"
  "uncaught synth_init = []"
  "onended (nodes synth_init ! 0) = None"
  "onended (nodes synth_init ! Suc 0) = None"
  by (simp_all add: synth_init_def createGain_def op_defs upd_node_def record_call_def new_node_def
      insert_event_def)

lemma Normal_state_of: "\<exists>s'. c = Normal s' \<Longrightarrow> c = Normal (state_of c)"
  by auto

lemma Voice_start_props:
  fixes s v
  defines "s' \<equiv> state_of (Voice_start v s)" and "N \<equiv> length (nodes s)"
  assumes v: "v < length (voices s)" and ad: "0 < attack (this v s)" "0 < decay (this v s)"
  shows "\<exists>s''. Voice_start v s = Normal s''"
    and "length (nodes s') = N + 6"
    and "length (voices s') = length (voices s)"
    and "activeVoices s' = activeVoices s"
    and "currentTime s' = currentTime s"
    and "masterGain s' = masterGain s"
    and "uncaught s' = uncaught s"
    and "\<And>m. m < N \<Longrightarrow> nodes s' ! m = nodes s ! m"
    and "\<And>w. w \<noteq> v \<Longrightarrow> this w s' = this w s"
    and "this v s' = (this v s)\<lparr>osc := Ref N, osc2 := Ref (N + 1), osc2scale := Ref (N + 2),
           osc3 := Ref (N + 3), osc3scale := Ref (N + 4), ampEnv := Ref (N + 5)\<rparr>"
    and "sounding v s'"
    and "onended (nodes s' ! N) = Some v"
    and "\<And>m. N < m \<Longrightarrow> m < N + 6 \<Longrightarrow> onended (nodes s' ! m) = None"
    and "\<And>m. N \<le> m \<Longrightarrow> m < N + 6 \<Longrightarrow> stopAt (nodes s' ! m) = None \<and> \<not> ended (nodes s' ! m)"
proof -
  note eq = Voice_start_effect [OF v ad [unfolded this_def]]
  show "\<exists>s''. Voice_start v s = Normal s''" by (simp add: eq)
  show "length (nodes s') = N + 6" by (simp add: s'_def eq N_def)
  show "length (voices s') = length (voices s)" by (simp add: s'_def eq)
  show "activeVoices s' = activeVoices s" by (simp add: s'_def eq)
  show "currentTime s' = currentTime s" by (simp add: s'_def eq)
  show "masterGain s' = masterGain s" by (simp add: s'_def eq)
  show "uncaught s' = uncaught s" by (simp add: s'_def eq)
  show "\<And>m. m < N \<Longrightarrow> nodes s' ! m = nodes s ! m" by (simp add: s'_def eq N_def nth_append)
  show "\<And>w. w \<noteq> v \<Longrightarrow> this w s' = this w s" by (simp add: s'_def eq this_def)
  show "this v s' = (this v s)\<lparr>osc := Ref N, osc2 := Ref (N + 1), osc2scale := Ref (N + 2),
           osc3 := Ref (N + 3), osc3scale := Ref (N + 4), ampEnv := Ref (N + 5)\<rparr>"
    using v by (simp add: s'_def eq this_def N_def)
  show "sounding v s'"
    using v by (simp add: s'_def eq sounding_def running_def is_node_def this_def nth_append)
  show "onended (nodes s' ! N) = Some v" by (simp add: s'_def eq N_def)
  show "\<And>m. N < m \<Longrightarrow> m < N + 6 \<Longrightarrow> onended (nodes s' ! m) = None"
    by (auto simp add: s'_def eq N_def nth_append nth_Cons split: nat.splits)
  show "\<And>m. N \<le> m \<Longrightarrow> m < N + 6 \<Longrightarrow> stopAt (nodes s' ! m) = None \<and> \<not> ended (nodes s' ! m)"
    by (auto simp add: s'_def eq N_def nth_append nth_Cons split: nat.splits)
qed


lemma Voice_stop_props:
  fixes s v
  defines "s' \<equiv> state_of (Voice_stop v s)"
  assumes snd: "sounding v s"
  shows "\<exists>s''. Voice_stop v s = Normal s''"
    and "voices s' = voices s"
    and "length (nodes s') = length (nodes s)"
    and "activeVoices s' = activeVoices s"
    and "currentTime s' = currentTime s"
    and "masterGain s' = masterGain s"
    and "uncaught s' = uncaught s"
    and "\<And>m. kind (nodes s' ! m) = kind (nodes s ! m)"
    and "\<And>m. startAt (nodes s' ! m) = startAt (nodes s ! m)"
    and "\<And>m. onended (nodes s' ! m) = onended (nodes s ! m)"
    and "\<And>m. ended (nodes s' ! m) = ended (nodes s ! m)"
    and "\<And>m. outputs (nodes s' ! m) = outputs (nodes s ! m)"
    and "\<And>m. pvalue (param (nodes s' ! m)) = pvalue (param (nodes s ! m))"
    and "\<And>m. stopAt (nodes s' ! m) =
           (if osc (this v s) = Ref m \<or> osc2 (this v s) = Ref m \<or> osc3 (this v s) = Ref m
            then Some (currentTime s + release (this v s) + 0.01) else stopAt (nodes s ! m))"
    and "\<And>w. dispose_calls w s' = dispose_calls w s"
proof -
  from snd obtain a b c e ta tb tc where h:
    "osc (this v s) = Ref a" "osc2 (this v s) = Ref b" "osc3 (this v s) = Ref c"
    "ampEnv (this v s) = Ref e"
    "a < length (nodes s)" "b < length (nodes s)" "c < length (nodes s)" "e < length (nodes s)"
    "kind (nodes s ! a) = Oscillator" "kind (nodes s ! b) = Oscillator"
    "kind (nodes s ! c) = Oscillator"
    "startAt (nodes s ! a) = Some ta" "startAt (nodes s ! b) = Some tb"
    "startAt (nodes s ! c) = Some tc"
    by (rule soundingE)
  note eq = Voice_stop_effect [OF h(4) h(1) h(2) h(3) h(9-14)]
  show "\<exists>s''. Voice_stop v s = Normal s''" by (simp add: eq)
  show "voices s' = voices s" by (simp add: s'_def eq op_defs)
  show "length (nodes s') = length (nodes s)" by (simp add: s'_def eq op_defs)
  show "activeVoices s' = activeVoices s" by (simp add: s'_def eq op_defs)
  show "currentTime s' = currentTime s" by (simp add: s'_def eq op_defs)
  show "masterGain s' = masterGain s" by (simp add: s'_def eq op_defs)
  show "uncaught s' = uncaught s" by (simp add: s'_def eq op_defs)
  show "\<And>m. kind (nodes s' ! m) = kind (nodes s ! m)" by (simp add: s'_def eq op_defs)
  show "\<And>m. startAt (nodes s' ! m) = startAt (nodes s ! m)" by (simp add: s'_def eq op_defs)
  show "\<And>m. onended (nodes s' ! m) = onended (nodes s ! m)" by (simp add: s'_def eq op_defs)
  show "\<And>m. ended (nodes s' ! m) = ended (nodes s ! m)" by (simp add: s'_def eq op_defs)
  show "\<And>m. outputs (nodes s' ! m) = outputs (nodes s ! m)" by (simp add: s'_def eq op_defs)
  show "\<And>m. pvalue (param (nodes s' ! m)) = pvalue (param (nodes s ! m))"
    by (simp add: s'_def eq op_defs)
  show "\<And>m. stopAt (nodes s' ! m) =
           (if osc (this v s) = Ref m \<or> osc2 (this v s) = Ref m \<or> osc3 (this v s) = Ref m
            then Some (currentTime s + release (this v s) + 0.01) else stopAt (nodes s ! m))"
    using h(1-7) by (auto simp add: s'_def eq op_defs stopAt_upd_node)
  show "\<And>w. dispose_calls w s' = dispose_calls w s"
    by (simp add: s'_def eq op_defs dispose_calls_def)
qed

lemma sounding_cong:
  assumes "this v s' = this v s" "length (voices s') = length (voices s)"
    "length (nodes s') = length (nodes s)"
    "\<And>m. m < length (nodes s) \<Longrightarrow> kind (nodes s' ! m) = kind (nodes s ! m)"
    "\<And>m. m < length (nodes s) \<Longrightarrow> startAt (nodes s' ! m) = startAt (nodes s ! m)"
  shows "sounding v s' = sounding v s"
  using assms
  by (auto simp add: sounding_def running_def is_node_def split: handle.splits)

lemma sounding_stop:
  assumes "sounding v s"
  shows "sounding v (state_of (Voice_stop v s))"
proof -
  note p = Voice_stop_props [OF assms]
  have "sounding v (state_of (Voice_stop v s)) = sounding v s"
    by (rule sounding_cong) (simp_all add: p this_def)
  with assms show ?thesis by simp
qed

lemma startNote_present:
  "activeVoices s note = Some v \<Longrightarrow> startNote rnd note s = Normal s"
  by (simp add: startNote_def)

lemma startNote_absent:
  assumes "activeVoices s note = None"
  shows "startNote rnd note s =
     Voice_start (length (voices s))
       ((snd (Voice_new (mtof (of_int note)) rnd (masterGain s) s))
          \<lparr>activeVoices := (activeVoices s)(note \<mapsto> length (voices s))\<rparr>)"
  using assms by (simp add: startNote_def Voice_new_def)

lemma registered_this:
  "this (length (voices s)) ((snd (Voice_new freq amp out s))\<lparr>activeVoices := A\<rparr>) =
     \<lparr>frequency = freq, maxAmp = amp, outputNode = out,
      attack = 0.02, decay = 0.01, sustain = 0.5, release = 0.5,
      osc = Undefined, osc2 = Undefined, osc3 = Undefined,
      osc2scale = Undefined, osc3scale = Undefined, ampEnv = Undefined\<rparr>"
  by (simp add: Voice_new_def this_def)

lemma startNote_props:
  fixes s k rnd
  defines "s' \<equiv> state_of (startNote rnd k s)"
    and "v \<equiv> length (voices s)" and "N \<equiv> length (nodes s)"
  assumes none: "activeVoices s k = None"
  shows "\<exists>s''. startNote rnd k s = Normal s''"
    and "activeVoices s' = (activeVoices s)(k \<mapsto> v)"
    and "length (voices s') = Suc v"
    and "length (nodes s') = N + 6"
    and "currentTime s' = currentTime s"
    and "masterGain s' = masterGain s"
    and "uncaught s' = uncaught s"
    and "\<And>m. m < N \<Longrightarrow> nodes s' ! m = nodes s ! m"
    and "\<And>w. w < v \<Longrightarrow> this w s' = this w s"
    and "this v s' =
      \<lparr>frequency = mtof (of_int k), maxAmp = rnd, outputNode = masterGain s,
       attack = 0.02, decay = 0.01, sustain = 0.5, release = 0.5,
       osc = Ref N, osc2 = Ref (N + 1), osc3 = Ref (N + 3),
       osc2scale = Ref (N + 2), osc3scale = Ref (N + 4), ampEnv = Ref (N + 5)\<rparr>"
    and "sounding v s'"
    and "onended (nodes s' ! N) = Some v"
    and "\<And>m. N < m \<Longrightarrow> m < N + 6 \<Longrightarrow> onended (nodes s' ! m) = None"
    and "\<And>m. N \<le> m \<Longrightarrow> m < N + 6 \<Longrightarrow> stopAt (nodes s' ! m) = None \<and> \<not> ended (nodes s' ! m)"
proof -
  let ?v = "length (voices s)"
  let ?s2 = "(snd (Voice_new (mtof (of_int k)) rnd (masterGain s) s))
          \<lparr>activeVoices := (activeVoices s)(k \<mapsto> length (voices s))\<rparr>"
  have pre: "?v < length (voices ?s2)" "0 < attack (this ?v ?s2)" "0 < decay (this ?v ?s2)"
    by (simp_all add: registered_this)
  note p = Voice_start_props [OF pre]
  note e = startNote_absent [OF none]
  have old: "\<And>w. w < ?v \<Longrightarrow> this w ?s2 = this w s"
    by (simp add: this_def Voice_new_def nth_append)
  show "\<exists>s''. startNote rnd k s = Normal s''" by (simp add: e p(1))
  show "activeVoices s' = (activeVoices s)(k \<mapsto> v)"
    unfolding s'_def v_def N_def e using p(4) by simp
  show "length (voices s') = Suc v"
    unfolding s'_def v_def N_def e using p(3) by simp
  show "length (nodes s') = N + 6"
    unfolding s'_def v_def N_def e using p(2) by simp
  show "currentTime s' = currentTime s"
    unfolding s'_def v_def N_def e using p(5) by simp
  show "masterGain s' = masterGain s"
    unfolding s'_def v_def N_def e using p(6) by simp
  show "uncaught s' = uncaught s"
    unfolding s'_def v_def N_def e using p(7) by simp
  show "\<And>m. m < N \<Longrightarrow> nodes s' ! m = nodes s ! m"
    unfolding s'_def v_def N_def e using p(8) by simp
  show "\<And>w. w < v \<Longrightarrow> this w s' = this w s"
    unfolding s'_def v_def N_def e using p(9) old by simp
  show "this v s' =
      \<lparr>frequency = mtof (of_int k), maxAmp = rnd, outputNode = masterGain s,
       attack = 0.02, decay = 0.01, sustain = 0.5, release = 0.5,
       osc = Ref N, osc2 = Ref (N + 1), osc3 = Ref (N + 3),
       osc2scale = Ref (N + 2), osc3scale = Ref (N + 4), ampEnv = Ref (N + 5)\<rparr>"
    unfolding s'_def v_def N_def e p(10) by (simp add: registered_this)
  show "sounding v s'"
    unfolding s'_def v_def N_def e by (rule p(11))
  show "onended (nodes s' ! N) = Some v"
    unfolding s'_def v_def N_def e using p(12) by simp
  show "\<And>m. N < m \<Longrightarrow> m < N + 6 \<Longrightarrow> onended (nodes s' ! m) = None"
    unfolding s'_def v_def N_def e using p(13) by simp
  show "\<And>m. N \<le> m \<Longrightarrow> m < N + 6 \<Longrightarrow> stopAt (nodes s' ! m) = None \<and> \<not> ended (nodes s' ! m)"
    unfolding s'_def v_def N_def e using p(14) by simp
qed

text \<open>
  C9, as the code has it: \<^verbatim>\<open>startNote(note)\<close> takes neither a frequency nor an amplitude.
  When the note has no entry, the Voice it stores has frequency \<^verbatim>\<open>mtof(note)\<close> and, as peak
  amplitude, the number \<^verbatim>\<open>Math.random()\<close> returned.
\<close>

theorem startNote_constructs:
  assumes "activeVoices s note = None"
  shows "\<exists>s'. startNote rnd note s = Normal s' \<and>
     activeVoices s' note = Some (length (voices s)) \<and>
     frequency (this (length (voices s)) s') = mtof (of_int note) \<and>
     maxAmp (this (length (voices s)) s') = rnd"
proof (intro exI conjI)
  show "startNote rnd note s = Normal (state_of (startNote rnd note s))"
    by (rule Normal_state_of) (rule startNote_props(1) [OF assms])
qed (simp_all add: startNote_props(2,10) [OF assms])

theorem startNote_constructs_witness:
  "activeVoices synth_init 60 = None \<and>
   (\<exists>s'. startNote 0.8 60 synth_init = Normal s' \<and> activeVoices s' 60 = Some 0 \<and>
      frequency (this 0 s') = mtof 60 \<and> maxAmp (this 0 s') = 0.8)"
proof -
  have h: "activeVoices synth_init 60 = None" by simp
  show ?thesis using h startNote_constructs [OF h, of "0.8"] by simp
qed

text \<open>
  C9 as stated fails: \<^verbatim>\<open>noteOn(60, 440, 0.8)\<close> on the initial state, with 0.3 drawn, stores a
  Voice whose frequency is not 440 and whose peak amplitude is not 0.8.
\<close>

theorem noteOn_ignores_frequency_amplitude:
  "activeVoices synth_init 60 = None \<and>
   activeVoices (state_of (noteOn 60 440 0.8 0.3 synth_init)) 60 = Some 0 \<and>
   frequency (this 0 (state_of (noteOn 60 440 0.8 0.3 synth_init))) \<noteq> 440 \<and>
   maxAmp (this 0 (state_of (noteOn 60 440 0.8 0.3 synth_init))) \<noteq> 0.8"
proof -
  have h: "activeVoices synth_init 60 = None" by simp
  have "mtof 60 < mtof 69" by (rule mtof_strict_mono) simp
  then have "mtof 60 \<noteq> 440" by (simp add: mtof_def)
  then show ?thesis
    using startNote_props(2,10) [OF h, of "0.3"] by (simp add: noteOn_def)
qed

section \<open>The fixture\<close>

lemma held60_props:
  "sounding 0 held60"
  "this 0 held60 =
      \<lparr>frequency = mtof 60, maxAmp = 0.8, outputNode = 1,
       attack = 0.02, decay = 0.01, sustain = 0.5, release = 0.5,
       osc = Ref 2, osc2 = Ref 3, osc3 = Ref 5,
       osc2scale = Ref 4, osc3scale = Ref 6, ampEnv = Ref 7\<rparr>"
  "currentTime held60 = 0"
  "activeVoices held60 = [60 \<mapsto> 0]"
  "length (voices held60) = 1"
  "length (nodes held60) = 8"
proof -
  have h: "activeVoices synth_init 60 = None" by simp
  note p = startNote_props [where rnd = "0.8", OF h, folded held60_def, simplified]
  show "sounding 0 held60" by (rule p(11))
  show "this 0 held60 =
      \<lparr>frequency = mtof 60, maxAmp = 0.8, outputNode = 1,
       attack = 0.02, decay = 0.01, sustain = 0.5, release = 0.5,
       osc = Ref 2, osc2 = Ref 3, osc3 = Ref 5,
       osc2scale = Ref 4, osc3scale = Ref 6, ampEnv = Ref 7\<rparr>"
    using p(10) by simp
  show "currentTime held60 = 0" by (rule p(5))
  show "activeVoices held60 = [60 \<mapsto> 0]" by (rule p(2))
  show "length (voices held60) = 1" using p(3) by simp
  show "length (nodes held60) = 8" using p(4) by simp
qed

section \<open>Disposal and the host clock\<close>

lemma run_invariant:
  assumes "P s" and "\<And>f s. f \<in> set fs \<Longrightarrow> P s \<Longrightarrow> P (state_of (f s))"
  shows "P (state_of (run fs s))"
  using assms
proof (induction fs arbitrary: s)
  case Nil
  then show ?case by simp
next
  case (Cons f fs)
  have step: "P (state_of (f s))" using Cons.prems by simp
  show ?case
  proof (cases "f s")
    case (Normal s')
    with step have "P s'" by simp
    then have "P (state_of (run fs s'))"
      by (rule Cons.IH) (simp add: Cons.prems(2))
    with Normal show ?thesis by simp
  next
    case (Throw e s')
    with step show ?thesis by simp
  qed
qed

lemma frame_refl: "frame u s s"
  by (simp add: frame_def)

lemma outputs_disconnect:
  "outputs (nodes (disconnect n s) ! m) =
     (if m = n \<and> n < length (nodes s) then [] else outputs (nodes s ! m))"
  by (simp add: disconnect_def upd_node_nth)

lemma frame_disconnect:
  assumes "frame u s s1"
  shows "frame u s (state_of (via h (\<lambda>n. ok (disconnect n)) s1))"
proof (cases h)
  case (Ref n)
  have "frame u s (disconnect n s1)"
    using assms unfolding frame_def
    by (simp add: outputs_disconnect) (simp add: disconnect_def dispose_calls_def)
  with Ref show ?thesis by (simp add: via_def ok_def)
qed (use assms in \<open>simp_all add: via_def\<close>)

lemma frame_upd_voice:
  assumes "frame u s s1"
  shows "frame u s (state_of (ok (upd_voice u f) s1))"
  using assms unfolding frame_def
  by (simp add: ok_def this_upd_voice dispose_calls_def)

lemma Voice_dispose_frame: "frame u s (state_of (Voice_dispose u s))"
  unfolding Voice_dispose_def
proof (rule run_invariant [where P = "frame u s"])
  show "frame u s s" by (rule frame_refl)
next
  fix f s1
  assume f: "f \<in> set
     [\<lambda>s. via (osc (this u s)) (\<lambda>n. ok (disconnect n)) s,
      \<lambda>s. via (osc2 (this u s)) (\<lambda>n. ok (disconnect n)) s,
      \<lambda>s. via (osc3 (this u s)) (\<lambda>n. ok (disconnect n)) s,
      \<lambda>s. via (osc2scale (this u s)) (\<lambda>n. ok (disconnect n)) s,
      \<lambda>s. via (osc3scale (this u s)) (\<lambda>n. ok (disconnect n)) s,
      \<lambda>s. via (ampEnv (this u s)) (\<lambda>n. ok (disconnect n)) s,
      ok (upd_voice u (\<lambda>x. x\<lparr>osc := Null\<rparr>)),
      ok (upd_voice u (\<lambda>x. x\<lparr>osc2 := Null\<rparr>)),
      ok (upd_voice u (\<lambda>x. x\<lparr>osc3 := Null\<rparr>)),
      ok (upd_voice u (\<lambda>x. x\<lparr>osc2scale := Null\<rparr>)),
      ok (upd_voice u (\<lambda>x. x\<lparr>osc3scale := Null\<rparr>)),
      ok (upd_voice u (\<lambda>x. x\<lparr>ampEnv := Null\<rparr>))]"
    and fr: "frame u s s1"
  from f show "frame u s (state_of (f s1))"
    by (auto intro: frame_disconnect [OF fr] frame_upd_voice [OF fr])
qed

lemma dispatch_ended_eq:
  "\<exists>es. dispatch_ended n s =
     (case onended (nodes s ! n) of
        None \<Rightarrow> record_call (Ended n None) (upd_node n (\<lambda>nd. nd\<lparr>ended := True\<rparr>) s)
      | Some u \<Rightarrow>
          (state_of (Voice_dispose u
             (record_call (Ended n (Some u)) (upd_node n (\<lambda>nd. nd\<lparr>ended := True\<rparr>) s))))
          \<lparr>uncaught := es\<rparr>)"
proof (cases "onended (nodes s ! n)")
  case None
  then show ?thesis by (simp add: dispatch_ended_def)
next
  case (Some u)
  let ?s1 = "record_call (Ended n (Some u)) (upd_node n (\<lambda>nd. nd\<lparr>ended := True\<rparr>) s)"
  show ?thesis
  proof (cases "Voice_dispose u ?s1")
    case (Normal s2)
    with Some have "dispatch_ended n s = s2"
      by (simp add: dispatch_ended_def)
    with Some Normal show ?thesis
      by (intro exI [of _ "uncaught s2"]) simp
  next
    case (Throw e s2)
    with Some have "dispatch_ended n s = s2\<lparr>uncaught := uncaught s2 @ [e]\<rparr>"
      by (simp add: dispatch_ended_def)
    with Some Throw show ?thesis
      by (intro exI [of _ "uncaught s2 @ [e]"]) simp
  qed
qed

lemma ended_upd_node:
  "ended (nodes (upd_node n (\<lambda>nd. nd\<lparr>ended := True\<rparr>) s) ! m) =
     (ended (nodes s ! m) \<or> (m = n \<and> n < length (nodes s)))"
  by (auto simp add: upd_node_nth)

lemma dispose_calls_record:
  "dispose_calls w (record_call c s) =
     dispose_calls w s @ (case c of Ended n h \<Rightarrow> if h = Some w then [c] else [] | _ \<Rightarrow> [])"
  by (simp add: dispose_calls_def split: call.splits)

lemma dispose_calls_cong: "calls s' = calls s \<Longrightarrow> dispose_calls w s' = dispose_calls w s"
  by (simp add: dispose_calls_def)

lemma dispatch_props:
  fixes s n
  defines "s' \<equiv> dispatch_ended n s" and "h \<equiv> onended (nodes s ! n)"
  shows "length (nodes s') = length (nodes s)"
    and "length (voices s') = length (voices s)"
    and "activeVoices s' = activeVoices s"
    and "currentTime s' = currentTime s"
    and "masterGain s' = masterGain s"
    and "\<And>m. kind (nodes s' ! m) = kind (nodes s ! m)"
    and "\<And>m. startAt (nodes s' ! m) = startAt (nodes s ! m)"
    and "\<And>m. stopAt (nodes s' ! m) = stopAt (nodes s ! m)"
    and "\<And>m. onended (nodes s' ! m) = onended (nodes s ! m)"
    and "\<And>m. param (nodes s' ! m) = param (nodes s ! m)"
    and "\<And>m. ended (nodes s' ! m) = (ended (nodes s ! m) \<or> (m = n \<and> n < length (nodes s)))"
    and "\<And>m. outputs (nodes s ! m) = [] \<Longrightarrow> outputs (nodes s' ! m) = []"
    and "\<And>w. h \<noteq> Some w \<Longrightarrow> this w s' = this w s"
    and "\<And>w. dispose_calls w s' =
           dispose_calls w s @ (if h = Some w then [Ended n h] else [])"
proof -
  let ?s0 = "upd_node n (\<lambda>nd. nd\<lparr>ended := True\<rparr>) s"
  obtain es where eq: "s' =
     (case h of
        None \<Rightarrow> record_call (Ended n None) ?s0
      | Some u \<Rightarrow> (state_of (Voice_dispose u (record_call (Ended n (Some u)) ?s0)))
          \<lparr>uncaught := es\<rparr>)"
    unfolding s'_def h_def using dispatch_ended_eq [of n s] by blast
  have fr: "\<And>u. frame u (record_call (Ended n (Some u)) ?s0)
      (state_of (Voice_dispose u (record_call (Ended n (Some u)) ?s0)))"
    by (rule Voice_dispose_frame)
  show "length (nodes s') = length (nodes s)"
    using fr by (cases h) (simp_all add: eq frame_def)
  show "length (voices s') = length (voices s)"
    using fr by (cases h) (simp_all add: eq frame_def)
  show "activeVoices s' = activeVoices s"
    using fr by (cases h) (simp_all add: eq frame_def)
  show "currentTime s' = currentTime s"
    using fr by (cases h) (simp_all add: eq frame_def)
  show "masterGain s' = masterGain s"
    using fr by (cases h) (simp_all add: eq frame_def)
  show "\<And>m. kind (nodes s' ! m) = kind (nodes s ! m)"
    using fr by (cases h) (simp_all add: eq frame_def)
  show "\<And>m. startAt (nodes s' ! m) = startAt (nodes s ! m)"
    using fr by (cases h) (simp_all add: eq frame_def)
  show "\<And>m. stopAt (nodes s' ! m) = stopAt (nodes s ! m)"
    using fr by (cases h) (simp_all add: eq frame_def)
  show "\<And>m. onended (nodes s' ! m) = onended (nodes s ! m)"
    using fr by (cases h) (simp_all add: eq frame_def)
  show "\<And>m. param (nodes s' ! m) = param (nodes s ! m)"
    using fr by (cases h) (simp_all add: eq frame_def)
  show "\<And>m. ended (nodes s' ! m) = (ended (nodes s ! m) \<or> (m = n \<and> n < length (nodes s)))"
    using fr by (cases h) (simp_all add: eq frame_def ended_upd_node)
  show "\<And>m. outputs (nodes s ! m) = [] \<Longrightarrow> outputs (nodes s' ! m) = []"
    using fr by (cases h) (simp_all add: eq frame_def)
  show "\<And>w. h \<noteq> Some w \<Longrightarrow> this w s' = this w s"
    using fr by (cases h) (auto simp add: eq frame_def this_def)
  show "\<And>w. dispose_calls w s' =
           dispose_calls w s @ (if h = Some w then [Ended n h] else [])"
  proof -
    fix w
    show "dispose_calls w s' = dispose_calls w s @ (if h = Some w then [Ended n h] else [])"
    proof (cases h)
      case None
      then show ?thesis by (simp add: eq dispose_calls_record) (simp add: dispose_calls_def)
    next
      case (Some u)
      let ?s1 = "record_call (Ended n (Some u)) ?s0"
      have "dispose_calls w s' = dispose_calls w (state_of (Voice_dispose u ?s1))"
        using Some by (simp add: eq dispose_calls_def)
      also have "\<dots> = dispose_calls w ?s1"
        using fr [of u] by (simp add: frame_def)
      also have "\<dots> = dispose_calls w s @ (if h = Some w then [Ended n h] else [])"
        using Some by (simp add: dispose_calls_record) (simp add: dispose_calls_def)
      finally show ?thesis .
    qed
  qed
qed

lemma fire_props:
  fixes s n t
  defines "s' \<equiv> fire t s n" and "d \<equiv> due t (nodes s ! n)"
  shows "length (nodes s') = length (nodes s)"
    and "length (voices s') = length (voices s)"
    and "activeVoices s' = activeVoices s"
    and "currentTime s' = currentTime s"
    and "masterGain s' = masterGain s"
    and "\<And>m. kind (nodes s' ! m) = kind (nodes s ! m)"
    and "\<And>m. startAt (nodes s' ! m) = startAt (nodes s ! m)"
    and "\<And>m. stopAt (nodes s' ! m) = stopAt (nodes s ! m)"
    and "\<And>m. onended (nodes s' ! m) = onended (nodes s ! m)"
    and "\<And>m. param (nodes s' ! m) = param (nodes s ! m)"
    and "\<And>m. ended (nodes s' ! m) =
           (ended (nodes s ! m) \<or> (m = n \<and> n < length (nodes s) \<and> d))"
    and "\<And>m. outputs (nodes s ! m) = [] \<Longrightarrow> outputs (nodes s' ! m) = []"
    and "\<And>w. \<not> (d \<and> onended (nodes s ! n) = Some w) \<Longrightarrow> this w s' = this w s"
    and "\<And>w. dispose_calls w s' =
           dispose_calls w s @
           (if d \<and> onended (nodes s ! n) = Some w then [Ended n (Some w)] else [])"
  unfolding s'_def d_def fire_def
  by (auto simp add: dispatch_props)

lemma pred_cong:
  assumes t: "this v s' = this v s" and lv: "length (voices s') = length (voices s)"
    and ln: "length (nodes s') = length (nodes s)"
    and k: "\<And>m. m < length (nodes s) \<Longrightarrow> kind (nodes s' ! m) = kind (nodes s ! m)"
    and sa: "\<And>m. m < length (nodes s) \<Longrightarrow> startAt (nodes s' ! m) = startAt (nodes s ! m)"
    and so: "\<And>m. m < length (nodes s) \<Longrightarrow> stopAt (nodes s' ! m) = stopAt (nodes s ! m)"
    and oe: "\<And>m. m < length (nodes s) \<Longrightarrow> onended (nodes s' ! m) = onended (nodes s ! m)"
    and en: "\<And>m. m < length (nodes s) \<Longrightarrow> ended (nodes s' ! m) = ended (nodes s ! m)"
  shows "sounding v s' = sounding v s" and "bound v s' = bound v s"
    and "halt_time v s' = halt_time v s" and "disposed v s' = disposed v s"
    and "live v s' = live v s" and "releasing v T s' = releasing v T s"
    and "spent v s' = spent v s"
proof -
  show 1: "sounding v s' = sounding v s"
    by (rule sounding_cong) (simp_all add: t lv ln k sa)
  show 2: "bound v s' = bound v s"
    unfolding bound_def t ln
    by (simp add: oe en cong: conj_cong split: handle.splits)
  show 3: "halt_time v s' = halt_time v s"
    unfolding halt_time_def t ln
    by (simp add: so cong: if_cong split: handle.splits)
  show 4: "disposed v s' = disposed v s"
    by (simp add: disposed_def t lv)
  show "live v s' = live v s" by (simp add: live_def 1 2 3)
  show "releasing v T s' = releasing v T s" by (simp add: releasing_def 1 2 3)
  show "spent v s' = spent v s"
    unfolding spent_def 4 ln by (simp add: oe en cong: conj_cong)
qed

lemma sounding_fire:
  assumes "sounding v s" "\<not> (due t (nodes s ! n) \<and> onended (nodes s ! n) = Some v)"
  shows "sounding v (fire t s n)"
proof -
  have "sounding v (fire t s n) = sounding v s"
    by (rule sounding_cong) (simp_all add: fire_props assms(2))
  with assms show ?thesis by simp
qed

lemma bound_fire:
  assumes "bound v s" "\<not> (due t (nodes s ! n) \<and> onended (nodes s ! n) = Some v)"
  shows "bound v (fire t s n)"
  using assms unfolding bound_def
  by (auto simp add: fire_props split: handle.splits)

lemma halt_time_fire:
  assumes "\<not> (due t (nodes s ! n) \<and> onended (nodes s ! n) = Some v)"
  shows "halt_time v (fire t s n) = halt_time v s"
  using assms unfolding halt_time_def
  by (simp add: fire_props split: handle.splits)

lemma live_not_due:
  assumes "live v s" "n < length (nodes s)"
  shows "\<not> (due t (nodes s ! n) \<and> onended (nodes s ! n) = Some v)"
  using assms unfolding live_def bound_def halt_time_def due_def
  by (auto split: handle.splits option.splits)

lemma releasing_not_due:
  assumes "releasing v T s" "n < length (nodes s)" "t < T \<or> osc (this v s) \<noteq> Ref n"
  shows "\<not> (due t (nodes s ! n) \<and> onended (nodes s ! n) = Some v)"
  using assms unfolding releasing_def bound_def halt_time_def due_def
  by (auto split: handle.splits option.splits)


lemma live_fire:
  assumes "live v s" "n < length (nodes s)"
  shows "live v (fire t s n)"
  using assms live_not_due [OF assms]
  by (simp add: live_def sounding_fire bound_fire halt_time_fire)

lemma releasing_fire:
  assumes "releasing v T s" "n < length (nodes s)" "t < T \<or> osc (this v s) \<noteq> Ref n"
  shows "releasing v T (fire t s n)" and "dispose_calls v (fire t s n) = dispose_calls v s"
    and "this v (fire t s n) = this v s"
  using assms(1) releasing_not_due [OF assms]
  by (simp_all add: releasing_def sounding_fire bound_fire halt_time_fire fire_props)



lemma foldl_fire_invariant:
  assumes "P s" and "\<And>s n. P s \<Longrightarrow> n \<in> set ns \<Longrightarrow> P (fire t s n)"
  shows "P (foldl (fire t) s ns)"
  using assms by (induction ns arbitrary: s) simp_all



lemma advance_eq:
  "currentTime s + render_quantum \<le> t \<Longrightarrow>
     advance t s = foldl (fire t) (rendered t s) [0..<length (nodes s)]"
  by (simp add: advance_def rendered_def)

lemma rendered_simps [simp]:
  "length (nodes (rendered t s)) = length (nodes s)"
  "voices (rendered t s) = voices s"
  "activeVoices (rendered t s) = activeVoices s"
  "currentTime (rendered t s) = t"
  "masterGain (rendered t s) = masterGain s"
  "uncaught (rendered t s) = uncaught s"
  "calls (rendered t s) = calls s"
  "this v (rendered t s) = this v s"
  by (simp_all add: rendered_def this_def)

lemma rendered_nth:
  "m < length (nodes s) \<Longrightarrow>
     nodes (rendered t s) ! m = render (t - render_quantum) (nodes s ! m)"
  by (simp add: rendered_def)

lemma render_simps [simp]:
  "kind (render t nd) = kind nd"
  "wave (render t nd) = wave nd"
  "outputs (render t nd) = outputs nd"
  "startAt (render t nd) = startAt nd"
  "stopAt (render t nd) = stopAt nd"
  "ended (render t nd) = ended nd"
  "onended (render t nd) = onended nd"
  "events (param (render t nd)) = events (param nd)"
  "pvalue (param (render t nd)) = param_at (param nd) t"
  by (simp_all add: render_def)

lemma rendered_preds:
  "sounding v (rendered t s) = sounding v s"
  "bound v (rendered t s) = bound v s"
  "halt_time v (rendered t s) = halt_time v s"
  "disposed v (rendered t s) = disposed v s"
  "live v (rendered t s) = live v s"
  "releasing v T (rendered t s) = releasing v T s"
  "spent v (rendered t s) = spent v s"
  "dispose_calls v (rendered t s) = dispose_calls v s"
  by (rule pred_cong; simp add: rendered_nth)+ (simp add: dispose_calls_def)

lemma advance_live:
  assumes "live v s"
  shows "live v (advance t s)"
proof (cases "currentTime s + render_quantum \<le> t")
  case True
  let ?P = "\<lambda>x. live v x \<and> length (nodes x) = length (nodes s)"
  have "?P (foldl (fire t) (rendered t s) [0..<length (nodes s)])"
  proof (rule foldl_fire_invariant [where P = ?P])
    show "?P (rendered t s)" using assms by (simp add: rendered_preds)
  next
    fix x n assume "?P x" "n \<in> set [0..<length (nodes s)]"
    then show "?P (fire t x n)" by (simp add: live_fire fire_props)
  qed
  with True show ?thesis by (simp add: advance_eq)
next
  case False
  with assms show ?thesis by (simp add: advance_def)
qed

lemma advance_releasing_early:
  assumes "releasing v T s" "t < T"
  shows "releasing v T (advance t s)" and "dispose_calls v (advance t s) = dispose_calls v s"
    and "this v (advance t s) = this v s"
proof -
  let ?P = "\<lambda>x. releasing v T x \<and> dispose_calls v x = dispose_calls v s \<and> this v x = this v s \<and>
      length (nodes x) = length (nodes s)"
  have "?P (advance t s)"
  proof (cases "currentTime s + render_quantum \<le> t")
    case True
    have "?P (foldl (fire t) (rendered t s) [0..<length (nodes s)])"
    proof (rule foldl_fire_invariant [where P = ?P])
      show "?P (rendered t s)" using assms by (simp add: rendered_preds)
    next
      fix x n assume P: "?P x" and n: "n \<in> set [0..<length (nodes s)]"
      from P n have nl: "n < length (nodes x)" by simp
      from P have r: "releasing v T x" by simp
      note rf = releasing_fire [OF r nl disjI1 [OF assms(2)]]
      show "?P (fire t x n)" using P rf by (simp add: fire_props)
    qed
    with True show ?thesis by (simp add: advance_eq)
  next
    case False
    with assms show ?thesis by (simp add: advance_def)
  qed
  then show "releasing v T (advance t s)" and "dispose_calls v (advance t s) = dispose_calls v s"
    and "this v (advance t s) = this v s"
    by simp_all
qed




lemma advance_length: "length (nodes (advance t s)) = length (nodes s)"
proof (cases "currentTime s + render_quantum \<le> t")
  case True
  have "length (nodes (foldl (fire t) (rendered t s) [0..<length (nodes s)])) = length (nodes s)"
    by (rule foldl_fire_invariant [where P = "\<lambda>x. length (nodes x) = length (nodes s)"])
       (simp_all add: fire_props)
  with True show ?thesis by (simp add: advance_eq)
next
  case False
  then show ?thesis by (simp add: advance_def)
qed

lemma bound_cong:
  assumes t: "this v s' = this v s" and ln: "length (nodes s') = length (nodes s)"
    and oe: "\<And>m. m < length (nodes s) \<Longrightarrow> onended (nodes s' ! m) = onended (nodes s ! m)"
    and en: "\<And>m. m < length (nodes s) \<Longrightarrow> ended (nodes s' ! m) = ended (nodes s ! m)"
  shows "bound v s' = bound v s"
  unfolding bound_def t ln
  by (simp add: oe en cong: conj_cong split: handle.splits)

lemma stop_releasing:
  assumes "live v s"
  shows "releasing v (currentTime s + release (this v s) + 0.01) (state_of (Voice_stop v s))"
proof -
  let ?s' = "state_of (Voice_stop v s)"
  from assms have snd: "sounding v s" and bnd: "bound v s" by (simp_all add: live_def)
  note p = Voice_stop_props [OF snd]
  have t: "this v ?s' = this v s" by (simp add: this_def p)
  have "bound v ?s' = bound v s"
    by (rule bound_cong) (simp_all add: t p)
  with bnd have "bound v ?s'" by simp
  moreover have "halt_time v ?s' = Some (currentTime s + release (this v s) + 0.01)"
    using bnd unfolding halt_time_def bound_def t
    by (auto simp add: p split: handle.splits)
  ultimately show ?thesis
    using sounding_stop [OF snd] by (simp add: releasing_def)
qed



section \<open>The registry\<close>

lemma consistent_init: "consistent synth_init"
  by (simp add: consistent_def less_Suc_eq numeral_2_eq_2)

lemma live_extend:
  assumes l: "live w s" and t: "this w s' = this w s"
    and lv: "length (voices s) \<le> length (voices s')"
    and ln: "length (nodes s) \<le> length (nodes s')"
    and old: "\<And>m. m < length (nodes s) \<Longrightarrow> nodes s' ! m = nodes s ! m"
    and new: "\<And>m. length (nodes s) \<le> m \<Longrightarrow> m < length (nodes s') \<Longrightarrow>
                onended (nodes s' ! m) \<noteq> Some w"
  shows "live w s'"
proof -
  from l have snd: "sounding w s" and bnd: "bound w s" and ht: "halt_time w s = None"
    by (simp_all add: live_def)
  from snd obtain a b c g h e ta tb tc where hs:
    "w < length (voices s)"
    "osc (this w s) = Ref a" "osc2 (this w s) = Ref b" "osc3 (this w s) = Ref c"
    "osc2scale (this w s) = Ref g" "osc3scale (this w s) = Ref h" "ampEnv (this w s) = Ref e"
    "a < length (nodes s)" "b < length (nodes s)" "c < length (nodes s)"
    "g < length (nodes s)" "h < length (nodes s)" "e < length (nodes s)"
    "kind (nodes s ! a) = Oscillator" "kind (nodes s ! b) = Oscillator"
    "kind (nodes s ! c) = Oscillator"
    "startAt (nodes s ! a) = Some ta" "startAt (nodes s ! b) = Some tb"
    "startAt (nodes s ! c) = Some tc"
    by (rule soundingE)
  have 1: "sounding w s'"
    using hs lv ln by (simp add: sounding_def running_def is_node_def t old)
  from bnd hs(2) have b1: "onended (nodes s ! a) = Some w" "\<not> ended (nodes s ! a)"
    and uniq: "\<And>m. m < length (nodes s) \<Longrightarrow> onended (nodes s ! m) = Some w \<Longrightarrow> m = a"
    by (auto simp add: bound_def)
  have 2: "bound w s'"
    unfolding bound_def t hs(2)
  proof (intro conjI allI impI)
    show "case Ref a of Ref n \<Rightarrow> n < length (nodes s') \<and> onended (nodes s' ! n) = Some w \<and>
            \<not> ended (nodes s' ! n) | Undefined \<Rightarrow> False | Null \<Rightarrow> False"
      using hs(8) ln b1 by (simp add: old)
  next
    fix m assume m: "m < length (nodes s')" "onended (nodes s' ! m) = Some w"
    show "Ref a = Ref m"
    proof (cases "m < length (nodes s)")
      case True
      with m uniq show ?thesis by (simp add: old)
    next
      case False
      with m new [of m] show ?thesis by simp
    qed
  qed
  have 3: "halt_time w s' = None"
    using ht hs(2,8) ln by (simp add: halt_time_def t old)
  from 1 2 3 show ?thesis by (simp add: live_def)
qed

lemma harmonics_unbound_extend:
  assumes hu: "harmonics_unbound w s" and snd: "sounding w s" and t: "this w s' = this w s"
    and old: "\<And>m. m < length (nodes s) \<Longrightarrow> onended (nodes s' ! m) = onended (nodes s ! m)"
  shows "harmonics_unbound w s'"
proof -
  from snd obtain b c where hs:
    "osc2 (this w s) = Ref b" "osc3 (this w s) = Ref c"
    "b < length (nodes s)" "c < length (nodes s)"
    by (rule soundingE)
  show ?thesis
    using hu hs unfolding harmonics_unbound_def t
    by (auto simp add: old)
qed

lemma startNote_live:
  assumes none: "activeVoices s k = None"
    and fresh: "\<And>n. n < length (nodes s) \<Longrightarrow> onended (nodes s ! n) \<noteq> Some (length (voices s))"
  shows "live (length (voices s)) (state_of (startNote rnd k s))"
    and "harmonics_unbound (length (voices s)) (state_of (startNote rnd k s))"
proof -
  let ?v = "length (voices s)" and ?N = "length (nodes s)"
  let ?s' = "state_of (startNote rnd k s)"
  note p = startNote_props [where rnd = rnd, OF none]
  have on: "\<And>m. m < ?N + 6 \<Longrightarrow> onended (nodes ?s' ! m) = Some ?v \<Longrightarrow> m = ?N"
  proof -
    fix m assume m: "m < ?N + 6" "onended (nodes ?s' ! m) = Some ?v"
    show "m = ?N"
    proof (rule ccontr)
      assume ne: "m \<noteq> ?N"
      show False
      proof (cases "m < ?N")
        case True
        with m fresh [of m] show False by (simp add: p(8))
      next
        case False
        with ne m p(13) [of m] show False by simp
      qed
    qed
  qed
  have b: "bound ?v ?s'"
    unfolding bound_def using p(12) p(14) [of ?N] on
    by (auto simp add: p(10) p(4))
  have h: "halt_time ?v ?s' = None"
    unfolding halt_time_def using p(14) [of ?N] by (simp add: p(10) p(4))
  show "live ?v ?s'" using p(11) b h by (simp add: live_def)
  show "harmonics_unbound ?v ?s'"
    unfolding harmonics_unbound_def using p(13)
    by (auto simp add: p(10) p(4))
qed

lemma startNote_consistent:
  assumes c: "consistent s"
  shows "consistent (state_of (startNote rnd k s))"
proof (cases "activeVoices s k")
  case (Some v)
  then show ?thesis using c by (simp add: startNote_present)
next
  case None
  let ?v = "length (voices s)" and ?N = "length (nodes s)"
  let ?s' = "state_of (startNote rnd k s)"
  note p = startNote_props [where rnd = rnd, OF None]
  from c have A: "\<And>k w. activeVoices s k = Some w \<Longrightarrow>
      live w s \<and> harmonics_unbound w s \<and> release (this w s) = 0.5"
    and B: "\<And>k k' w. activeVoices s k = Some w \<Longrightarrow> activeVoices s k' = Some w \<Longrightarrow> k = k'"
    and C: "\<And>n w. n < ?N \<Longrightarrow> onended (nodes s ! n) = Some w \<Longrightarrow> w < ?v"
    by (auto simp add: consistent_def)
  have fresh: "\<And>n. n < ?N \<Longrightarrow> onended (nodes s ! n) \<noteq> Some ?v"
  proof
    fix n assume "n < ?N" "onended (nodes s ! n) = Some ?v"
    from C [OF this] show False by simp
  qed
  note nl = startNote_live [where rnd = rnd, OF None fresh]
  have reg: "\<And>k' w. activeVoices s k' = Some w \<Longrightarrow> w < ?v"
    using A by (auto simp add: live_def sounding_def)
  have newon: "\<And>m. ?N \<le> m \<Longrightarrow> m < ?N + 6 \<Longrightarrow>
       onended (nodes ?s' ! m) = Some ?v \<or> onended (nodes ?s' ! m) = None"
  proof -
    fix m assume "?N \<le> m" "m < ?N + 6"
    then show "onended (nodes ?s' ! m) = Some ?v \<or> onended (nodes ?s' ! m) = None"
      using p(12) p(13) [of m] by (cases "m = ?N") auto
  qed
  have old: "\<And>w k'. activeVoices s k' = Some w \<Longrightarrow>
      live w ?s' \<and> harmonics_unbound w ?s' \<and> release (this w ?s') = 0.5"
  proof -
    fix w k' assume r: "activeVoices s k' = Some w"
    from reg [OF r] have wv: "w < ?v" .
    from A [OF r] have l: "live w s" and hu: "harmonics_unbound w s"
      and rl: "release (this w s) = 0.5" by simp_all
    have "live w ?s'"
    proof (rule live_extend [OF l])
      show "this w ?s' = this w s" using wv by (rule p(9))
      show "length (voices s) \<le> length (voices ?s')" by (simp add: p(3))
      show "length (nodes s) \<le> length (nodes ?s')" by (simp add: p(4))
      show "\<And>m. m < ?N \<Longrightarrow> nodes ?s' ! m = nodes s ! m" by (rule p(8))
      show "\<And>m. ?N \<le> m \<Longrightarrow> m < length (nodes ?s') \<Longrightarrow> onended (nodes ?s' ! m) \<noteq> Some w"
      proof -
        fix m assume m: "?N \<le> m" "m < length (nodes ?s')"
        then have "m < ?N + 6" by (simp add: p(4))
        from newon [OF m(1) this] wv show "onended (nodes ?s' ! m) \<noteq> Some w" by auto
      qed
    qed
    moreover have "harmonics_unbound w ?s'"
      by (rule harmonics_unbound_extend [OF hu]) (use l wv in \<open>simp_all add: live_def p(9) p(8)\<close>)
    moreover have "release (this w ?s') = 0.5" using rl wv by (simp add: p(9))
    ultimately show "live w ?s' \<and> harmonics_unbound w ?s' \<and> release (this w ?s') = 0.5"
      by simp
  qed
  show ?thesis
    unfolding consistent_def
  proof (intro conjI allI impI)
    fix k' w assume r: "activeVoices ?s' k' = Some w"
    show "live w ?s'"
    proof (cases "k' = k")
      case True
      with r have "w = ?v" by (simp add: p(2))
      with nl(1) show ?thesis by simp
    next
      case False
      with r have "activeVoices s k' = Some w" by (simp add: p(2))
      from old [OF this] show ?thesis by simp
    qed
    show "harmonics_unbound w ?s'"
    proof (cases "k' = k")
      case True
      with r have "w = ?v" by (simp add: p(2))
      with nl(2) show ?thesis by simp
    next
      case False
      with r have "activeVoices s k' = Some w" by (simp add: p(2))
      from old [OF this] show ?thesis by simp
    qed
    show "release (this w ?s') = 0.5"
    proof (cases "k' = k")
      case True
      with r have "w = ?v" by (simp add: p(2))
      then show ?thesis by (simp add: p(10))
    next
      case False
      with r have "activeVoices s k' = Some w" by (simp add: p(2))
      from old [OF this] show ?thesis by simp
    qed
  next
    fix k1 k2 w assume r: "activeVoices ?s' k1 = Some w \<and> activeVoices ?s' k2 = Some w"
    show "k1 = k2"
    proof (cases "k1 = k")
      case True
      with r have w: "w = ?v" by (simp add: p(2))
      show ?thesis
      proof (rule ccontr)
        assume "k1 \<noteq> k2"
        with True r have "activeVoices s k2 = Some w" by (simp add: p(2))
        from reg [OF this] w show False by simp
      qed
    next
      case False
      with r have r1: "activeVoices s k1 = Some w" by (simp add: p(2))
      show ?thesis
      proof (cases "k2 = k")
        case True
        with r have "w = ?v" by (simp add: p(2))
        with reg [OF r1] show ?thesis by simp
      next
        case False
        with r have "activeVoices s k2 = Some w" by (simp add: p(2))
        with r1 show ?thesis by (rule B)
      qed
    qed
  next
    fix n w assume n: "n < length (nodes ?s')" and o: "onended (nodes ?s' ! n) = Some w"
    show "w < length (voices ?s')"
    proof (cases "n < ?N")
      case True
      with o C [of n w] show ?thesis by (simp add: p(8) p(3))
    next
      case False
      with n o newon [of n] show ?thesis by (auto simp add: p(4) p(3))
    qed
  qed
qed

lemma stopNote_absent: "activeVoices s k = None \<Longrightarrow> stopNote k s = Normal s"
  by (simp add: stopNote_def)

lemma stopNote_present:
  assumes "activeVoices s k = Some v" "sounding v s"
  shows "stopNote k s =
     Normal ((state_of (Voice_stop v s))\<lparr>activeVoices := (activeVoices s)(k := None)\<rparr>)"
proof -
  note p = Voice_stop_props [OF assms(2)]
  from p(1) obtain s1 where s1: "Voice_stop v s = Normal s1" by blast
  have "activeVoices s1 = activeVoices s" using p(4) s1 by simp
  with assms(1) s1 show ?thesis by (simp add: stopNote_def)
qed

lemma deregister_this [simp]: "this w (s\<lparr>activeVoices := A\<rparr>) = this w s"
  by (simp add: this_def)

lemma deregister_preds:
  "live w (s\<lparr>activeVoices := A\<rparr>) = live w s"
  "releasing w T (s\<lparr>activeVoices := A\<rparr>) = releasing w T s"
  "sounding w (s\<lparr>activeVoices := A\<rparr>) = sounding w s"
  "harmonics_unbound w (s\<lparr>activeVoices := A\<rparr>) = harmonics_unbound w s"
  "dispose_calls w (s\<lparr>activeVoices := A\<rparr>) = dispose_calls w s"
proof -
  show "live w (s\<lparr>activeVoices := A\<rparr>) = live w s" by (rule pred_cong) simp_all
  show "releasing w T (s\<lparr>activeVoices := A\<rparr>) = releasing w T s" by (rule pred_cong) simp_all
  show "sounding w (s\<lparr>activeVoices := A\<rparr>) = sounding w s" by (rule pred_cong) simp_all
  show "harmonics_unbound w (s\<lparr>activeVoices := A\<rparr>) = harmonics_unbound w s"
    by (simp add: harmonics_unbound_def)
  show "dispose_calls w (s\<lparr>activeVoices := A\<rparr>) = dispose_calls w s"
    by (simp add: dispose_calls_def)
qed

lemma stop_keeps_live:
  assumes lv: "live v s" and hv: "harmonics_unbound v s" and lw: "live w s" and ne: "w \<noteq> v"
  shows "live w (state_of (Voice_stop v s))"
proof -
  let ?s' = "state_of (Voice_stop v s)"
  from lv have snd: "sounding v s" and bv: "bound v s" by (simp_all add: live_def)
  note p = Voice_stop_props [OF snd]
  from lw have sw: "sounding w s" and bw: "bound w s" and hw: "halt_time w s = None"
    by (simp_all add: live_def)
  have t: "this w ?s' = this w s" by (simp add: this_def p)
  have 1: "sounding w ?s' = sounding w s"
    by (rule sounding_cong) (simp_all add: t p)
  have 2: "bound w ?s' = bound w s"
    by (rule bound_cong) (simp_all add: t p)
  from bw obtain a where a: "osc (this w s) = Ref a" "a < length (nodes s)"
    "onended (nodes s ! a) = Some w"
    by (auto simp add: bound_def split: handle.splits)
  from snd obtain a' b' c' where v:
    "osc (this v s) = Ref a'" "osc2 (this v s) = Ref b'" "osc3 (this v s) = Ref c'"
    "a' < length (nodes s)" "b' < length (nodes s)" "c' < length (nodes s)"
    by (rule soundingE)
  from bv v(1) have "onended (nodes s ! a') = Some v" by (simp add: bound_def)
  with a(3) ne have n1: "a \<noteq> a'" by auto
  from hv v have "onended (nodes s ! b') = None" "onended (nodes s ! c') = None"
    by (simp_all add: harmonics_unbound_def)
  with a(3) have n2: "a \<noteq> b'" "a \<noteq> c'" by auto
  have "stopAt (nodes ?s' ! a) = stopAt (nodes s ! a)"
    using n1 n2 v(1-3) by (simp add: p)
  then have 3: "halt_time w ?s' = None"
    using hw a(1,2) by (simp add: halt_time_def t p)
  from sw bw 1 2 3 show ?thesis by (simp add: live_def)
qed

lemma stop_keeps_harmonics_unbound:
  assumes "sounding v s" "harmonics_unbound w s"
  shows "harmonics_unbound w (state_of (Voice_stop v s))"
proof -
  note p = Voice_stop_props [OF assms(1)]
  have t: "this w (state_of (Voice_stop v s)) = this w s" by (simp add: this_def p)
  show ?thesis
    using assms(2) unfolding harmonics_unbound_def t by (simp add: p)
qed

lemma stopNote_consistent:
  assumes c: "consistent s"
  shows "consistent (state_of (stopNote k s))"
proof (cases "activeVoices s k")
  case None
  then show ?thesis using c by (simp add: stopNote_absent)
next
  case (Some v)
  from c have A: "\<And>k w. activeVoices s k = Some w \<Longrightarrow>
      live w s \<and> harmonics_unbound w s \<and> release (this w s) = 0.5"
    and B: "\<And>k k' w. activeVoices s k = Some w \<Longrightarrow> activeVoices s k' = Some w \<Longrightarrow> k = k'"
    and C: "\<And>n w. n < length (nodes s) \<Longrightarrow> onended (nodes s ! n) = Some w \<Longrightarrow>
              w < length (voices s)"
    by (auto simp add: consistent_def)
  from A [OF Some] have lv: "live v s" and hv: "harmonics_unbound v s" by simp_all
  from lv have snd: "sounding v s" by (simp add: live_def)
  note p = Voice_stop_props [OF snd]
  let ?s1 = "state_of (Voice_stop v s)"
  let ?s' = "?s1\<lparr>activeVoices := (activeVoices s)(k := None)\<rparr>"
  have e: "state_of (stopNote k s) = ?s'"
    by (simp add: stopNote_present [OF Some snd])
  show ?thesis
    unfolding e consistent_def
  proof (intro conjI allI impI)
    fix k' w assume r: "activeVoices ?s' k' = Some w"
    then have k': "k' \<noteq> k" and r0: "activeVoices s k' = Some w"
      by (auto split: if_splits)
    have ne: "w \<noteq> v"
    proof
      assume "w = v"
      with r0 have "activeVoices s k' = Some v" by simp
      from B [OF this Some] k' show False by simp
    qed
    from A [OF r0] have lw: "live w s" and hw: "harmonics_unbound w s"
      and rw: "release (this w s) = 0.5" by simp_all
    show "live w ?s'"
      using stop_keeps_live [OF lv hv lw ne] by (simp add: deregister_preds)
    show "harmonics_unbound w ?s'"
      using stop_keeps_harmonics_unbound [OF snd hw] by (simp add: deregister_preds)
    show "release (this w ?s') = 0.5"
      using rw by (simp add: this_def p)
  next
    fix k1 k2 w assume "activeVoices ?s' k1 = Some w \<and> activeVoices ?s' k2 = Some w"
    then have "activeVoices s k1 = Some w" "activeVoices s k2 = Some w"
      by (auto split: if_splits)
    then show "k1 = k2" by (rule B)
  next
    fix n w assume "n < length (nodes ?s')" "onended (nodes ?s' ! n) = Some w"
    then show "w < length (voices ?s')"
      using C [of n w] by (simp add: p)
  qed
qed

lemma advance_frame:
  shows "length (voices (advance t s)) = length (voices s)"
    and "activeVoices (advance t s) = activeVoices s"
    and "\<And>m. m < length (nodes s) \<Longrightarrow> onended (nodes (advance t s) ! m) = onended (nodes s ! m)"
proof -
  let ?P = "\<lambda>x. length (nodes x) = length (nodes s) \<and> length (voices x) = length (voices s) \<and>
      activeVoices x = activeVoices s \<and>
      (\<forall>m < length (nodes s). onended (nodes x ! m) = onended (nodes s ! m))"
  have "?P (advance t s)"
  proof (cases "currentTime s + render_quantum \<le> t")
    case True
    have "?P (foldl (fire t) (rendered t s) [0..<length (nodes s)])"
      by (rule foldl_fire_invariant [where P = ?P]) (simp_all add: fire_props rendered_nth)
    with True show ?thesis by (simp add: advance_eq)
  next
    case False
    then show ?thesis by (simp add: advance_def)
  qed
  then show "length (voices (advance t s)) = length (voices s)"
    and "activeVoices (advance t s) = activeVoices s"
    and "\<And>m. m < length (nodes s) \<Longrightarrow> onended (nodes (advance t s) ! m) = onended (nodes s ! m)"
    by simp_all
qed

lemma advance_live_this:
  assumes "live v s"
  shows "this v (advance t s) = this v s"
proof (cases "currentTime s + render_quantum \<le> t")
  case True
  let ?P = "\<lambda>x. live v x \<and> this v x = this v s \<and> length (nodes x) = length (nodes s)"
  have "?P (foldl (fire t) (rendered t s) [0..<length (nodes s)])"
  proof (rule foldl_fire_invariant [where P = ?P])
    show "?P (rendered t s)" using assms by (simp add: rendered_preds)
  next
    fix x n assume P: "?P x" and n: "n \<in> set [0..<length (nodes s)]"
    from P n have nl: "n < length (nodes x)" by simp
    from P have l: "live v x" by simp
    from live_not_due [where t = t, OF l nl] have "this v (fire t x n) = this v x"
      by (simp add: fire_props)
    with P live_fire [where t = t, OF l nl] show "?P (fire t x n)" by (simp add: fire_props)
  qed
  with True show ?thesis by (simp add: advance_eq)
next
  case False
  then show ?thesis by (simp add: advance_def)
qed

lemma advance_consistent:
  assumes c: "consistent s"
  shows "consistent (advance t s)"
proof -
  from c have A: "\<And>k w. activeVoices s k = Some w \<Longrightarrow>
      live w s \<and> harmonics_unbound w s \<and> release (this w s) = 0.5"
    and B: "\<And>k k' w. activeVoices s k = Some w \<Longrightarrow> activeVoices s k' = Some w \<Longrightarrow> k = k'"
    and C: "\<And>n w. n < length (nodes s) \<Longrightarrow> onended (nodes s ! n) = Some w \<Longrightarrow>
              w < length (voices s)"
    by (auto simp add: consistent_def)
  note f = advance_frame [where t = t and s = s] advance_length [where t = t and s = s]
  show ?thesis
    unfolding consistent_def
  proof (intro conjI allI impI)
    fix k w assume "activeVoices (advance t s) k = Some w"
    then have r: "activeVoices s k = Some w" by (simp add: f)
    from A [OF r] have l: "live w s" and hu: "harmonics_unbound w s"
      and rw: "release (this w s) = 0.5" by simp_all
    show "release (this w (advance t s)) = 0.5"
      using rw by (simp add: advance_live_this [OF l])
    show "live w (advance t s)" by (rule advance_live [OF l])
    show "harmonics_unbound w (advance t s)"
      using hu unfolding harmonics_unbound_def advance_live_this [OF l]
      by (simp add: f)
  next
    fix k1 k2 w assume "activeVoices (advance t s) k1 = Some w \<and> activeVoices (advance t s) k2 = Some w"
    then show "k1 = k2" using B by (simp add: f)
  next
    fix n w assume "n < length (nodes (advance t s))" "onended (nodes (advance t s) ! n) = Some w"
    then show "w < length (voices (advance t s))"
      using C [of n w] by (simp add: f)
  qed
qed

lemma step_consistent: "consistent s \<Longrightarrow> consistent (step i s)"
  by (cases i) (simp_all add: startNote_consistent stopNote_consistent advance_consistent)

lemma consistent_after: "consistent (after ins)"
  unfolding after_def
  by (induction ins rule: rev_induct) (simp_all add: consistent_init step_consistent)

lemma consistentD:
  assumes "consistent s" "activeVoices s k = Some v"
  shows "live v s" and "harmonics_unbound v s" and "release (this v s) = 0.5"
    and "sounding v s" and "v < length (voices s)"
  using assms by (auto simp add: consistent_def live_def sounding_def)

lemma consistent_fresh:
  assumes "consistent s" "n < length (nodes s)"
  shows "onended (nodes s ! n) \<noteq> Some (length (voices s))"
proof
  assume "onended (nodes s ! n) = Some (length (voices s))"
  with assms have "length (voices s) < length (voices s)"
    unfolding consistent_def by blast
  then show False by simp
qed

lemma after_held60: "after [NoteOn 0.8 60] = held60"
  by (simp add: after_def held60_def)

text \<open>
  C4: in every state the inputs can lead to, \<^verbatim>\<open>startNote\<close> for a note that has an entry
  returns the state unchanged (no Voice is constructed, the stored Voice is untouched);
  for a note without an entry it constructs exactly one Voice, stores it under the note
  and leaves it live, and a second \<^verbatim>\<open>startNote\<close> for that note changes nothing. Every
  entry of the registry holds a live Voice, and no two notes hold the same Voice.
\<close>

theorem startNote_at_most_one:
  "(\<forall>v. activeVoices (after ins) k = Some v \<longrightarrow>
      startNote rnd k (after ins) = Normal (after ins)) \<and>
   (activeVoices (after ins) k = None \<longrightarrow>
      (\<exists>s1. startNote rnd k (after ins) = Normal s1 \<and>
         activeVoices s1 = (activeVoices (after ins))(k \<mapsto> length (voices (after ins))) \<and>
         length (voices s1) = length (voices (after ins)) + 1 \<and>
         live (length (voices (after ins))) s1 \<and>
         startNote rnd' k s1 = Normal s1)) \<and>
   (\<forall>k' v. activeVoices (after ins) k' = Some v \<longrightarrow> live v (after ins)) \<and>
   (\<forall>k1 k2 v. activeVoices (after ins) k1 = Some v \<and> activeVoices (after ins) k2 = Some v \<longrightarrow>
      k1 = k2)"
proof (intro conjI allI impI)
  let ?s = "after ins"
  note c = consistent_after [of ins]
  show "\<And>v. activeVoices ?s k = Some v \<Longrightarrow> startNote rnd k ?s = Normal ?s"
    by (rule startNote_present)
  show "\<And>k' v. activeVoices ?s k' = Some v \<Longrightarrow> live v ?s"
    by (rule consistentD(1) [OF c])
  show "\<And>k1 k2 v. activeVoices ?s k1 = Some v \<and> activeVoices ?s k2 = Some v \<Longrightarrow> k1 = k2"
    using c unfolding consistent_def by blast
  assume none: "activeVoices ?s k = None"
  note p = startNote_props [where rnd = rnd, OF none]
  let ?s1 = "state_of (startNote rnd k ?s)"
  have 1: "startNote rnd k ?s = Normal ?s1" by (rule Normal_state_of) (rule p(1))
  have 2: "live (length (voices ?s)) ?s1"
    by (rule startNote_live(1) [OF none]) (rule consistent_fresh [OF c])
  have 3: "startNote rnd' k ?s1 = Normal ?s1"
    by (rule startNote_present [where v = "length (voices ?s)"]) (simp add: p(2))
  show "\<exists>s1. startNote rnd k ?s = Normal s1 \<and>
         activeVoices s1 = (activeVoices ?s)(k \<mapsto> length (voices ?s)) \<and>
         length (voices s1) = length (voices ?s) + 1 \<and>
         live (length (voices ?s)) s1 \<and>
         startNote rnd' k s1 = Normal s1"
    apply (rule exI [of _ ?s1])
    apply (intro conjI)
    apply (rule 1)
    apply (rule p(2))
    apply (simp add: p(3))
    apply (rule 2)
    apply (rule 3)
    done
qed

theorem startNote_at_most_one_witness:
  "activeVoices (after [NoteOn 0.8 60]) 60 = Some 0 \<and>
   startNote 0.3 60 (after [NoteOn 0.8 60]) = Normal (after [NoteOn 0.8 60]) \<and>
   live 0 (after [NoteOn 0.8 60]) \<and>
   activeVoices (after []) 60 = None \<and>
   (\<exists>s1. startNote 0.8 60 (after []) = Normal s1 \<and> length (voices s1) = 1 \<and> live 0 s1 \<and>
      startNote 0.3 60 s1 = Normal s1)"
proof -
  have h1: "activeVoices (after [NoteOn 0.8 60]) 60 = Some 0"
    unfolding after_held60 by (simp add: held60_props)
  have h2: "activeVoices (after []) 60 = None" by (simp add: after_def)
  have v: "length (voices (after [])) = 0" by (simp add: after_def)
  show ?thesis
    using h1 h2 startNote_at_most_one [of "[NoteOn 0.8 60]" 60 "0.3" "0.3"]
      startNote_at_most_one [of "[]" 60 "0.8" "0.3"]
    by (auto simp add: v)
qed

text \<open>
  C5: in every state the inputs can lead to, \<^verbatim>\<open>stopNote\<close> for a note without an entry
  returns the state unchanged; for a note with an entry it calls the stored Voice's
  \<^verbatim>\<open>stop()\<close>, which returns normally, and removes that entry and no other. The Voice is
  then releasing: still sounding, its halt scheduled 0.5 + 0.01 after the current time,
  and its \<^verbatim>\<open>dispose\<close> not invoked.
\<close>

theorem stopNote_removes_entry:
  "(activeVoices (after ins) k = None \<longrightarrow> stopNote k (after ins) = Normal (after ins)) \<and>
   (\<forall>v. activeVoices (after ins) k = Some v \<longrightarrow>
      (\<exists>s1. Voice_stop v (after ins) = Normal s1 \<and>
         stopNote k (after ins) =
           Normal (s1\<lparr>activeVoices := (activeVoices (after ins))(k := None)\<rparr>) \<and>
         releasing v (currentTime (after ins) + 0.5 + 0.01) s1 \<and>
         dispose_calls v s1 = dispose_calls v (after ins)))"
proof (intro conjI allI impI)
  let ?s = "after ins"
  note c = consistent_after [of ins]
  show "activeVoices ?s k = None \<Longrightarrow> stopNote k ?s = Normal ?s"
    by (rule stopNote_absent)
  fix v assume r: "activeVoices ?s k = Some v"
  note d = consistentD [OF c r]
  note p = Voice_stop_props [OF d(4)]
  let ?s1 = "state_of (Voice_stop v ?s)"
  have 1: "Voice_stop v ?s = Normal ?s1" by (rule Normal_state_of) (rule p(1))
  have 2: "stopNote k ?s = Normal (?s1\<lparr>activeVoices := (activeVoices ?s)(k := None)\<rparr>)"
    by (rule stopNote_present [OF r d(4)])
  have 3: "releasing v (currentTime ?s + 0.5 + 0.01) ?s1"
    using stop_releasing [OF d(1)] d(3) by simp
  show "\<exists>s1. Voice_stop v ?s = Normal s1 \<and>
         stopNote k ?s = Normal (s1\<lparr>activeVoices := (activeVoices ?s)(k := None)\<rparr>) \<and>
         releasing v (currentTime ?s + 0.5 + 0.01) s1 \<and>
         dispose_calls v s1 = dispose_calls v ?s"
    apply (rule exI [of _ ?s1])
    apply (intro conjI)
    apply (rule 1)
    apply (rule 2)
    apply (rule 3)
    apply (rule p(15))
    done
qed

theorem stopNote_removes_entry_witness:
  "activeVoices (after [NoteOn 0.8 60]) 61 = None \<and>
   stopNote 61 (after [NoteOn 0.8 60]) = Normal (after [NoteOn 0.8 60]) \<and>
   activeVoices (after [NoteOn 0.8 60]) 60 = Some 0 \<and>
   (\<exists>s'. stopNote 60 (after [NoteOn 0.8 60]) = Normal s' \<and> activeVoices s' = Map.empty \<and>
      releasing 0 0.51 s')"
proof -
  note i1 = stopNote_removes_entry [of "[NoteOn 0.8 60]" 61, unfolded after_held60]
  note i2 = stopNote_removes_entry [of "[NoteOn 0.8 60]" 60, unfolded after_held60]
  have h1: "activeVoices held60 61 = None" by (simp add: held60_props)
  have h2: "activeVoices held60 60 = Some 0" by (simp add: held60_props)
  from i1 h1 have 1: "stopNote 61 held60 = Normal held60" by simp
  from i2 h2 obtain s1 where s1: "Voice_stop 0 held60 = Normal s1"
    "stopNote 60 held60 = Normal (s1\<lparr>activeVoices := (activeVoices held60)(60 := None)\<rparr>)"
    "releasing 0 (currentTime held60 + 0.5 + 0.01) s1"
    by blast
  have 2: "activeVoices (s1\<lparr>activeVoices := (activeVoices held60)(60 := None)\<rparr>) = Map.empty"
    by (simp add: held60_props)
  have 3: "releasing 0 0.51 (s1\<lparr>activeVoices := (activeVoices held60)(60 := None)\<rparr>)"
    using s1(3) by (simp add: deregister_preds held60_props)
  show ?thesis
    unfolding after_held60 using h1 h2 1 s1(2) 2 3 by blast
qed


section \<open>Stopping out of turn\<close>

lemma advance_time:
  "currentTime (advance t s) = (if currentTime s + render_quantum \<le> t then t else currentTime s)"
proof (cases "currentTime s + render_quantum \<le> t")
  case True
  have "currentTime (foldl (fire t) (rendered t s) [0..<length (nodes s)]) = t"
    by (rule foldl_fire_invariant [where P = "\<lambda>x. currentTime x = t"])
       (simp_all add: fire_props)
  with True show ?thesis by (simp add: advance_eq)
next
  case False
  then show ?thesis by (simp add: advance_def)
qed

lemma stop_sounding:
  assumes snd: "sounding v s" and rel: "release (this v s) = 0.5"
  shows "\<exists>e a b c s'.
     ampEnv (this v s) = Ref e \<and> osc (this v s) = Ref a \<and>
     osc2 (this v s) = Ref b \<and> osc3 (this v s) = Ref c \<and>
     Voice_stop v s = Normal s' \<and> sounding v s' \<and>
     calls s' = calls s @
       [CancelScheduledValues e (currentTime s),
        SetValueAtTime e (get_value e s) (currentTime s),
        LinearRampToValueAtTime e 0 (currentTime s + 0.5),
        Stop a (currentTime s + 0.5 + 0.01),
        Stop b (currentTime s + 0.5 + 0.01),
        Stop c (currentTime s + 0.5 + 0.01)] \<and>
     halt_time v s' = Some (currentTime s + 0.5 + 0.01)"
proof -
  from Voice_stop_calls [OF snd rel] obtain e a b c s' where x:
    "ampEnv (this v s) = Ref e" "osc (this v s) = Ref a"
    "osc2 (this v s) = Ref b" "osc3 (this v s) = Ref c"
    "Voice_stop v s = Normal s'"
    "calls s' = calls s @
       [CancelScheduledValues e (currentTime s),
        SetValueAtTime e (get_value e s) (currentTime s),
        LinearRampToValueAtTime e 0 (currentTime s + 0.5),
        Stop a (currentTime s + 0.5 + 0.01),
        Stop b (currentTime s + 0.5 + 0.01),
        Stop c (currentTime s + 0.5 + 0.01)]"
    "stopAt (nodes s' ! a) = Some (currentTime s + 0.5 + 0.01)"
    by blast
  from x(5) have s': "s' = state_of (Voice_stop v s)" by simp
  note p = Voice_stop_props [OF snd]
  have t: "this v s' = this v s" by (simp add: s' this_def p)
  have al: "a < length (nodes s)" using snd x(2) by (auto elim!: soundingE)
  have 1: "sounding v s'" unfolding s' by (rule sounding_stop [OF snd])
  have 2: "halt_time v s' = Some (currentTime s + 0.5 + 0.01)"
    unfolding halt_time_def t x(2) using al x(7) by (simp add: s' p)
  from x(1-6) 1 2 show ?thesis by blast
qed

lemma held60_live: "live 0 held60"
proof -
  have c: "consistent held60" using consistent_after [of "[NoteOn 0.8 60]"]
    unfolding after_held60 .
  have r: "activeVoices held60 60 = Some 0" by (simp add: held60_props)
  show ?thesis by (rule consistentD(1) [OF c r])
qed

text \<open>
  C8, as the code has it: \<^verbatim>\<open>stop()\<close> has no lifecycle guard. Called before
  \<^verbatim>\<open>start()\<close> (the envelope stage is \<^verbatim>\<open>undefined\<close>) or after \<^verbatim>\<open>dispose()\<close> (it is
  \<^verbatim>\<open>null\<close>), it throws a \<^verbatim>\<open>TypeError\<close> at its first statement and changes nothing.
  Called on a sounding Voice with release 0.5, whether or not a halt is already scheduled,
  it returns normally, makes its six calls (cancel, pin, ramp, three halts) and sets the
  halt to the current time plus 0.5 + 0.01. So after a first \<^verbatim>\<open>stop()\<close> on a live Voice,
  a second \<^verbatim>\<open>stop()\<close> at any clock time before the scheduled halt is not a no-op: it
  returns normally, makes the six calls again with the new current time, and moves the
  halt from the first call's time to its own.
\<close>

theorem stop_lifecycle:
  "(ampEnv (this v s) = Undefined \<or> ampEnv (this v s) = Null \<longrightarrow>
      Voice_stop v s = Throw TypeError s) \<and>
   (sounding v s \<and> release (this v s) = 0.5 \<longrightarrow>
      (\<exists>e a b c s'.
         ampEnv (this v s) = Ref e \<and> osc (this v s) = Ref a \<and>
         osc2 (this v s) = Ref b \<and> osc3 (this v s) = Ref c \<and>
         Voice_stop v s = Normal s' \<and> sounding v s' \<and>
         calls s' = calls s @
           [CancelScheduledValues e (currentTime s),
            SetValueAtTime e (get_value e s) (currentTime s),
            LinearRampToValueAtTime e 0 (currentTime s + 0.5),
            Stop a (currentTime s + 0.5 + 0.01),
            Stop b (currentTime s + 0.5 + 0.01),
            Stop c (currentTime s + 0.5 + 0.01)] \<and>
         halt_time v s' = Some (currentTime s + 0.5 + 0.01))) \<and>
   (live v s \<and> release (this v s) = 0.5 \<longrightarrow>
      (\<exists>s1. Voice_stop v s = Normal s1 \<and>
         (\<forall>t. t < currentTime s + 0.5 + 0.01 \<longrightarrow>
            (\<exists>e a b c s2.
               ampEnv (this v (advance t s1)) = Ref e \<and> osc (this v (advance t s1)) = Ref a \<and>
               osc2 (this v (advance t s1)) = Ref b \<and> osc3 (this v (advance t s1)) = Ref c \<and>
               halt_time v (advance t s1) = Some (currentTime s + 0.5 + 0.01) \<and>
               Voice_stop v (advance t s1) = Normal s2 \<and> sounding v s2 \<and>
               calls s2 = calls (advance t s1) @
                 [CancelScheduledValues e (currentTime (advance t s1)),
                  SetValueAtTime e (get_value e (advance t s1)) (currentTime (advance t s1)),
                  LinearRampToValueAtTime e 0 (currentTime (advance t s1) + 0.5),
                  Stop a (currentTime (advance t s1) + 0.5 + 0.01),
                  Stop b (currentTime (advance t s1) + 0.5 + 0.01),
                  Stop c (currentTime (advance t s1) + 0.5 + 0.01)] \<and>
               halt_time v s2 = Some (currentTime (advance t s1) + 0.5 + 0.01)))))"
proof (intro conjI impI)
  assume "ampEnv (this v s) = Undefined \<or> ampEnv (this v s) = Null"
  then show "Voice_stop v s = Throw TypeError s" by (rule Voice_stop_unstarted)
next
  assume a: "sounding v s \<and> release (this v s) = 0.5"
  show "\<exists>e a b c s'.
         ampEnv (this v s) = Ref e \<and> osc (this v s) = Ref a \<and>
         osc2 (this v s) = Ref b \<and> osc3 (this v s) = Ref c \<and>
         Voice_stop v s = Normal s' \<and> sounding v s' \<and>
         calls s' = calls s @
           [CancelScheduledValues e (currentTime s),
            SetValueAtTime e (get_value e s) (currentTime s),
            LinearRampToValueAtTime e 0 (currentTime s + 0.5),
            Stop a (currentTime s + 0.5 + 0.01),
            Stop b (currentTime s + 0.5 + 0.01),
            Stop c (currentTime s + 0.5 + 0.01)] \<and>
         halt_time v s' = Some (currentTime s + 0.5 + 0.01)"
    by (rule stop_sounding [OF conjunct1 [OF a] conjunct2 [OF a]])
next
  assume a: "live v s \<and> release (this v s) = 0.5"
  have l: "live v s" by (rule conjunct1 [OF a])
  have r: "release (this v s) = 0.5" by (rule conjunct2 [OF a])
  from l have snd: "sounding v s" by (simp add: live_def)
  let ?s1 = "state_of (Voice_stop v s)"
  have n1: "Voice_stop v s = Normal ?s1"
    by (rule Normal_state_of) (rule Voice_stop_props(1) [OF snd])
  have rel: "releasing v (currentTime s + 0.5 + 0.01) ?s1"
    using stop_releasing [OF l] r by simp
  have t1: "this v ?s1 = this v s" by (simp add: this_def Voice_stop_props [OF snd])
  have "\<forall>t. t < currentTime s + 0.5 + 0.01 \<longrightarrow>
            (\<exists>e a b c s2.
               ampEnv (this v (advance t ?s1)) = Ref e \<and> osc (this v (advance t ?s1)) = Ref a \<and>
               osc2 (this v (advance t ?s1)) = Ref b \<and> osc3 (this v (advance t ?s1)) = Ref c \<and>
               halt_time v (advance t ?s1) = Some (currentTime s + 0.5 + 0.01) \<and>
               Voice_stop v (advance t ?s1) = Normal s2 \<and> sounding v s2 \<and>
               calls s2 = calls (advance t ?s1) @
                 [CancelScheduledValues e (currentTime (advance t ?s1)),
                  SetValueAtTime e (get_value e (advance t ?s1)) (currentTime (advance t ?s1)),
                  LinearRampToValueAtTime e 0 (currentTime (advance t ?s1) + 0.5),
                  Stop a (currentTime (advance t ?s1) + 0.5 + 0.01),
                  Stop b (currentTime (advance t ?s1) + 0.5 + 0.01),
                  Stop c (currentTime (advance t ?s1) + 0.5 + 0.01)] \<and>
               halt_time v s2 = Some (currentTime (advance t ?s1) + 0.5 + 0.01))"
  proof (intro allI impI)
    fix t assume t: "t < currentTime s + 0.5 + 0.01"
    note e = advance_releasing_early [OF rel t]
    from e(1) have snd2: "sounding v (advance t ?s1)"
      and ht: "halt_time v (advance t ?s1) = Some (currentTime s + 0.5 + 0.01)"
      by (simp_all add: releasing_def)
    have r2: "release (this v (advance t ?s1)) = 0.5" unfolding e(3) t1 by (rule r)
    from stop_sounding [OF snd2 r2] ht
    show "\<exists>e a b c s2.
               ampEnv (this v (advance t ?s1)) = Ref e \<and> osc (this v (advance t ?s1)) = Ref a \<and>
               osc2 (this v (advance t ?s1)) = Ref b \<and> osc3 (this v (advance t ?s1)) = Ref c \<and>
               halt_time v (advance t ?s1) = Some (currentTime s + 0.5 + 0.01) \<and>
               Voice_stop v (advance t ?s1) = Normal s2 \<and> sounding v s2 \<and>
               calls s2 = calls (advance t ?s1) @
                 [CancelScheduledValues e (currentTime (advance t ?s1)),
                  SetValueAtTime e (get_value e (advance t ?s1)) (currentTime (advance t ?s1)),
                  LinearRampToValueAtTime e 0 (currentTime (advance t ?s1) + 0.5),
                  Stop a (currentTime (advance t ?s1) + 0.5 + 0.01),
                  Stop b (currentTime (advance t ?s1) + 0.5 + 0.01),
                  Stop c (currentTime (advance t ?s1) + 0.5 + 0.01)] \<and>
               halt_time v s2 = Some (currentTime (advance t ?s1) + 0.5 + 0.01)"
      by blast
  qed
  with n1 show "\<exists>s1. Voice_stop v s = Normal s1 \<and>
         (\<forall>t. t < currentTime s + 0.5 + 0.01 \<longrightarrow>
            (\<exists>e a b c s2.
               ampEnv (this v (advance t s1)) = Ref e \<and> osc (this v (advance t s1)) = Ref a \<and>
               osc2 (this v (advance t s1)) = Ref b \<and> osc3 (this v (advance t s1)) = Ref c \<and>
               halt_time v (advance t s1) = Some (currentTime s + 0.5 + 0.01) \<and>
               Voice_stop v (advance t s1) = Normal s2 \<and> sounding v s2 \<and>
               calls s2 = calls (advance t s1) @
                 [CancelScheduledValues e (currentTime (advance t s1)),
                  SetValueAtTime e (get_value e (advance t s1)) (currentTime (advance t s1)),
                  LinearRampToValueAtTime e 0 (currentTime (advance t s1) + 0.5),
                  Stop a (currentTime (advance t s1) + 0.5 + 0.01),
                  Stop b (currentTime (advance t s1) + 0.5 + 0.01),
                  Stop c (currentTime (advance t s1) + 0.5 + 0.01)] \<and>
               halt_time v s2 = Some (currentTime (advance t s1) + 0.5 + 0.01)))"
    by (intro exI [of _ ?s1] conjI)
qed

text \<open>
  C8 as stated fails: \<^verbatim>\<open>stop()\<close> on a Voice that was constructed and never started throws
  the \<^verbatim>\<open>TypeError\<close> of dereferencing the uninitialised envelope stage.
\<close>

theorem stop_before_start_throws:
  "Voice_stop (fst (Voice_new 440 0.8 1 synth_init)) (snd (Voice_new 440 0.8 1 synth_init)) =
     Throw TypeError (snd (Voice_new 440 0.8 1 synth_init))"
  by (rule Voice_stop_unstarted) (simp add: Voice_new_this [of synth_init, simplified])

theorem stop_lifecycle_witness:
  "ampEnv (this 0 (snd (Voice_new 440 0.8 1 synth_init))) = Undefined \<and>
   Voice_stop 0 (snd (Voice_new 440 0.8 1 synth_init)) =
     Throw TypeError (snd (Voice_new 440 0.8 1 synth_init)) \<and>
   sounding 0 held60 \<and> live 0 held60 \<and> release (this 0 held60) = 0.5 \<and>
   (\<exists>s'. Voice_stop 0 held60 = Normal s' \<and> sounding 0 s' \<and> halt_time 0 s' = Some 0.51) \<and>
   (\<exists>s1 s2. Voice_stop 0 held60 = Normal s1 \<and>
      halt_time 0 (advance 0.2 s1) = Some 0.51 \<and>
      Voice_stop 0 (advance 0.2 s1) = Normal s2 \<and>
      calls s2 = calls (advance 0.2 s1) @
        [CancelScheduledValues 7 0.2, SetValueAtTime 7 (get_value 7 (advance 0.2 s1)) 0.2,
         LinearRampToValueAtTime 7 0 0.7, Stop 2 0.71, Stop 3 0.71, Stop 5 0.71] \<and>
      halt_time 0 s2 = Some 0.71)"
proof -
  let ?u = "snd (Voice_new 440 0.8 1 synth_init)"
  have h1: "ampEnv (this 0 ?u) = Undefined"
    by (simp add: Voice_new_this [of synth_init, simplified])
  have l: "live 0 held60" by (rule held60_live)
  have snd: "sounding 0 held60" by (rule held60_props)
  have r: "release (this 0 held60) = 0.5" by (simp add: held60_props)
  have t0: "currentTime held60 = 0" by (rule held60_props)
  from stop_lifecycle [of 0 ?u] h1 have 1: "Voice_stop 0 ?u = Throw TypeError ?u" by blast
  from stop_lifecycle [of 0 held60] l r obtain s1 where n: "Voice_stop 0 held60 = Normal s1"
    and all: "\<forall>t. t < currentTime held60 + 0.5 + 0.01 \<longrightarrow>
            (\<exists>e a b c s2.
               ampEnv (this 0 (advance t s1)) = Ref e \<and> osc (this 0 (advance t s1)) = Ref a \<and>
               osc2 (this 0 (advance t s1)) = Ref b \<and> osc3 (this 0 (advance t s1)) = Ref c \<and>
               halt_time 0 (advance t s1) = Some (currentTime held60 + 0.5 + 0.01) \<and>
               Voice_stop 0 (advance t s1) = Normal s2 \<and> sounding 0 s2 \<and>
               calls s2 = calls (advance t s1) @
                 [CancelScheduledValues e (currentTime (advance t s1)),
                  SetValueAtTime e (get_value e (advance t s1)) (currentTime (advance t s1)),
                  LinearRampToValueAtTime e 0 (currentTime (advance t s1) + 0.5),
                  Stop a (currentTime (advance t s1) + 0.5 + 0.01),
                  Stop b (currentTime (advance t s1) + 0.5 + 0.01),
                  Stop c (currentTime (advance t s1) + 0.5 + 0.01)] \<and>
               halt_time 0 s2 = Some (currentTime (advance t s1) + 0.5 + 0.01))"
    by blast
  from stop_lifecycle [of 0 held60] snd r obtain s' where y:
    "Voice_stop 0 held60 = Normal s'" "sounding 0 s'"
    "halt_time 0 s' = Some (currentTime held60 + 0.5 + 0.01)"
    by blast
  have 0: "\<exists>s'. Voice_stop 0 held60 = Normal s' \<and> sounding 0 s' \<and> halt_time 0 s' = Some 0.51"
    using y unfolding t0 by simp
  have lt: "(0.2::real) < currentTime held60 + 0.5 + 0.01" unfolding t0 by simp
  from all [rule_format, OF lt] obtain e a b c s2 where x:
    "ampEnv (this 0 (advance 0.2 s1)) = Ref e" "osc (this 0 (advance 0.2 s1)) = Ref a"
    "osc2 (this 0 (advance 0.2 s1)) = Ref b" "osc3 (this 0 (advance 0.2 s1)) = Ref c"
    "halt_time 0 (advance 0.2 s1) = Some (currentTime held60 + 0.5 + 0.01)"
    "Voice_stop 0 (advance 0.2 s1) = Normal s2"
    "calls s2 = calls (advance 0.2 s1) @
                 [CancelScheduledValues e (currentTime (advance 0.2 s1)),
                  SetValueAtTime e (get_value e (advance 0.2 s1)) (currentTime (advance 0.2 s1)),
                  LinearRampToValueAtTime e 0 (currentTime (advance 0.2 s1) + 0.5),
                  Stop a (currentTime (advance 0.2 s1) + 0.5 + 0.01),
                  Stop b (currentTime (advance 0.2 s1) + 0.5 + 0.01),
                  Stop c (currentTime (advance 0.2 s1) + 0.5 + 0.01)]"
    "halt_time 0 s2 = Some (currentTime (advance 0.2 s1) + 0.5 + 0.01)"
    by blast
  from n have s1: "s1 = state_of (Voice_stop 0 held60)" by simp
  note p = Voice_stop_props [OF snd]
  have rel: "releasing 0 (currentTime held60 + 0.5 + 0.01) s1"
    using stop_releasing [OF l] r unfolding s1 by simp
  have t1: "this 0 s1 = this 0 held60" by (simp add: s1 this_def p)
  have t2: "this 0 (advance 0.2 s1) = this 0 held60"
    unfolding advance_releasing_early(3) [OF rel lt] by (rule t1)
  have c1: "currentTime s1 = 0" by (simp add: s1 p t0)
  have ct: "currentTime (advance 0.2 s1) = 0.2"
    unfolding advance_time c1 by (simp add: render_quantum_def)
  from x(1-4) have i: "e = 7" "a = 2" "b = 3" "c = 5"
    unfolding t2 by (simp_all add: held60_props)
  have 2: "halt_time 0 (advance 0.2 s1) = Some 0.51" unfolding x(5) t0 by simp
  have 3: "calls s2 = calls (advance 0.2 s1) @
        [CancelScheduledValues 7 0.2, SetValueAtTime 7 (get_value 7 (advance 0.2 s1)) 0.2,
         LinearRampToValueAtTime 7 0 0.7, Stop 2 0.71, Stop 3 0.71, Stop 5 0.71]"
    unfolding x(7) i ct by simp
  have 4: "halt_time 0 s2 = Some 0.71" unfolding x(8) ct by simp
  show ?thesis
    apply (intro conjI)
    apply (rule h1)
    apply (rule 1)
    apply (rule snd)
    apply (rule l)
    apply (rule r)
    apply (rule 0)
    apply (rule exI [of _ s1])
    apply (rule exI [of _ s2])
    apply (intro conjI)
    apply (rule n)
    apply (rule 2)
    apply (rule x(6))
    apply (rule 3)
    apply (rule 4)
    done
qed

section \<open>The envelope over time\<close>

lemma timeline_skip:
  assumes "\<forall>x \<in> set es. event_time x \<le> \<tau>" "T \<le> \<tau>"
  shows "timeline (es @ SetValue V T # rest) v0 t0 \<tau> = timeline rest V T \<tau>"
  using assms
proof (induction es arbitrary: v0 t0)
  case Nil
  then show ?case by simp
next
  case (Cons x es)
  then show ?case by (cases x) simp_all
qed

lemma advance_param:
  assumes "e < length (nodes s)"
  shows "events (param (nodes (advance t s) ! e)) = events (param (nodes s ! e))"
    and "pvalue (param (nodes (advance t s) ! e)) =
           (if currentTime s + render_quantum \<le> t
            then param_at (param (nodes s ! e)) (t - render_quantum)
            else pvalue (param (nodes s ! e)))"
proof -
  let ?P = "\<lambda>x. param (nodes x ! e) = param (nodes (rendered t s) ! e)"
  have r: "currentTime s + render_quantum \<le> t \<Longrightarrow> ?P (advance t s)"
  proof -
    assume le: "currentTime s + render_quantum \<le> t"
    have "?P (foldl (fire t) (rendered t s) [0..<length (nodes s)])"
      by (rule foldl_fire_invariant [where P = ?P]) (simp_all add: fire_props)
    with le show "?P (advance t s)" by (simp add: advance_eq)
  qed
  show "events (param (nodes (advance t s) ! e)) = events (param (nodes s ! e))"
    using r assms
    by (cases "currentTime s + render_quantum \<le> t") (simp_all add: rendered_nth advance_def)
  show "pvalue (param (nodes (advance t s) ! e)) =
           (if currentTime s + render_quantum \<le> t
            then param_at (param (nodes s ! e)) (t - render_quantum)
            else pvalue (param (nodes s ! e)))"
    using r assms
    by (cases "currentTime s + render_quantum \<le> t") (simp_all add: rendered_nth advance_def)
qed


lemma Voice_start_envelope:
  assumes v: "v < length (voices s)" and ad: "0 < attack (this v s)" "0 < decay (this v s)"
  shows "param (nodes (state_of (Voice_start v s)) ! (length (nodes s) + 5)) =
     \<lparr>events = [SetValue 0 (currentTime s),
                LinearRamp (maxAmp (this v s)) (currentTime s + attack (this v s)),
                LinearRamp (sustain (this v s) * maxAmp (this v s))
                  (currentTime s + attack (this v s) + decay (this v s))],
      pvalue = 1\<rparr>"
proof -
  have e: "length (nodes s) + 5 = Suc (Suc (Suc (Suc (Suc (length (nodes s))))))" by simp
  note eq = Voice_start_effect [OF v ad [unfolded this_def]]
  show ?thesis unfolding e by (simp add: eq this_def nth_append)
qed

lemma startNote_envelope:
  assumes none: "activeVoices s k = None"
  shows "param (nodes (state_of (startNote rnd k s)) ! (length (nodes s) + 5)) =
     \<lparr>events = [SetValue 0 (currentTime s), LinearRamp rnd (currentTime s + 0.02),
                LinearRamp (0.5 * rnd) (currentTime s + 0.02 + 0.01)],
      pvalue = 1\<rparr>"
proof -
  let ?v = "length (voices s)"
  let ?s2 = "(snd (Voice_new (mtof (of_int k)) rnd (masterGain s) s))
          \<lparr>activeVoices := (activeVoices s)(k \<mapsto> length (voices s))\<rparr>"
  have pre: "?v < length (voices ?s2)" "0 < attack (this ?v ?s2)" "0 < decay (this ?v ?s2)"
    by (simp_all add: Voice_new_this)
  note p = Voice_start_envelope [OF pre]
  show ?thesis
    unfolding startNote_absent [OF none] using p by (simp add: Voice_new_this)
qed

lemma Voice_stop_envelope:
  assumes snd: "sounding v s" and e: "ampEnv (this v s) = Ref e" and r: "0 \<le> release (this v s)"
  shows "param (nodes (state_of (Voice_stop v s)) ! e) =
     \<lparr>events = filter (\<lambda>x. event_time x < currentTime s) (events (param (nodes s ! e))) @
                [SetValue (pvalue (param (nodes s ! e))) (currentTime s),
                 LinearRamp 0 (currentTime s + release (this v s))],
      pvalue = pvalue (param (nodes s ! e))\<rparr>"
proof -
  from snd obtain a b c e' ta tb tc where h:
    "osc (this v s) = Ref a" "osc2 (this v s) = Ref b" "osc3 (this v s) = Ref c"
    "ampEnv (this v s) = Ref e'"
    "a < length (nodes s)" "b < length (nodes s)" "c < length (nodes s)" "e' < length (nodes s)"
    "kind (nodes s ! a) = Oscillator" "kind (nodes s ! b) = Oscillator"
    "kind (nodes s ! c) = Oscillator"
    "startAt (nodes s ! a) = Some ta" "startAt (nodes s ! b) = Some tb"
    "startAt (nodes s ! c) = Some tc"
    by (rule soundingE)
  from e h(4) have ee: "e' = e" by simp
  note eq = Voice_stop_effect [OF h(4) h(1) h(2) h(3) h(9-14), unfolded ee]
  note p = Voice_stop_props [OF snd]
  let ?now = "currentTime s"
  let ?s3 = "linearRampToValueAtTime e 0 (?now + release (this v s))
            (setValueAtTime e (get_value e s) ?now (cancelScheduledValues e ?now s))"
  have ev: "events (param (nodes ?s3 ! e)) =
       filter (\<lambda>x. event_time x < ?now) (events (param (nodes s ! e))) @
       [SetValue (get_value e s) ?now, LinearRamp 0 (?now + release (this v s))]"
    using stop_events [OF h(8) [unfolded ee] r] by simp
  have "events (param (nodes (state_of (Voice_stop v s)) ! e)) = events (param (nodes ?s3 ! e))"
    by (simp add: eq stop_at_def)
  with ev have 1: "events (param (nodes (state_of (Voice_stop v s)) ! e)) =
       filter (\<lambda>x. event_time x < ?now) (events (param (nodes s ! e))) @
       [SetValue (pvalue (param (nodes s ! e))) ?now, LinearRamp 0 (?now + release (this v s))]"
    by (simp add: get_value_def)
  have 2: "pvalue (param (nodes (state_of (Voice_stop v s)) ! e)) = pvalue (param (nodes s ! e))"
    by (rule p(13))
  show ?thesis
    by (rule audio_param.equality) (simp_all add: 1 2)
qed

lemma attack_decay_timeline:
  assumes "t0 \<le> \<tau>"
  shows "timeline [SetValue 0 t0, LinearRamp A (t0 + 0.02), LinearRamp (0.5 * A) (t0 + 0.02 + 0.01)]
           v0 z \<tau> = attack_decay A t0 \<tau>"
proof -
  consider "\<tau> < t0 + 0.02" | "t0 + 0.02 \<le> \<tau>" "\<tau> < t0 + 0.03" | "t0 + 0.03 \<le> \<tau>"
    by linarith
  then show ?thesis
  proof cases
    case 1
    with assms have "min 1 (max 0 ((\<tau> - t0) * 50)) = (\<tau> - t0) * 50"
      "min 1 (max 0 ((\<tau> - t0 - 0.02) * 100)) = 0"
      by (simp_all add: min_def max_def)
    with 1 assms show ?thesis by (simp add: attack_decay_def)
  next
    case 2
    with assms have "min 1 (max 0 ((\<tau> - t0) * 50)) = 1"
      "min 1 (max 0 ((\<tau> - t0 - 0.02) * 100)) = (\<tau> - t0 - 0.02) * 100"
      by (simp_all add: min_def max_def)
    with 2 assms show ?thesis by (simp add: attack_decay_def algebra_simps)
  next
    case 3
    with assms have "min 1 (max 0 ((\<tau> - t0) * 50)) = 1"
      "min 1 (max 0 ((\<tau> - t0 - 0.02) * 100)) = 1"
      by (simp_all add: min_def max_def)
    with 3 assms show ?thesis by (simp add: attack_decay_def)
  qed
qed

lemma release_ramp_timeline:
  assumes "\<forall>x \<in> set es. event_time x \<le> \<tau>" "T1 \<le> \<tau>"
  shows "timeline (es @ [SetValue V T1, LinearRamp 0 (T1 + 0.5)]) v0 z \<tau> = release_ramp V T1 \<tau>"
proof -
  have "timeline (es @ SetValue V T1 # [LinearRamp 0 (T1 + 0.5)]) v0 z \<tau> =
        timeline [LinearRamp 0 (T1 + 0.5)] V T1 \<tau>"
    by (rule timeline_skip [OF assms])
  also have "\<dots> = release_ramp V T1 \<tau>"
  proof (cases "\<tau> < T1 + 0.5")
    case True
    with assms(2) have "min 1 (max 0 ((\<tau> - T1) * 2)) = (\<tau> - T1) * 2"
      by (simp add: min_def max_def)
    with True show ?thesis by (simp add: release_ramp_def algebra_simps)
  next
    case False
    with assms(2) have "min 1 (max 0 ((\<tau> - T1) * 2)) = 1"
      by (simp add: min_def max_def)
    with False show ?thesis by (simp add: release_ramp_def)
  qed
  finally show ?thesis by simp
qed

lemma param_at_attack_decay:
  assumes "p = \<lparr>events = [SetValue 0 t0, LinearRamp A (t0 + 0.02),
                           LinearRamp (0.5 * A) (t0 + 0.02 + 0.01)], pvalue = v\<rparr>"
    and "t0 \<le> \<tau>"
  shows "param_at p \<tau> = attack_decay A t0 \<tau>"
  unfolding param_at_def assms(1) audio_param.select_convs
  by (rule attack_decay_timeline [OF assms(2)])

lemma param_at_release_ramp:
  assumes "p = \<lparr>events = es @ [SetValue V T1, LinearRamp 0 (T1 + 0.5)], pvalue = v\<rparr>"
    and "\<forall>x \<in> set es. event_time x \<le> \<tau>" "T1 \<le> \<tau>"
  shows "param_at p \<tau> = release_ramp V T1 \<tau>"
  unfolding param_at_def assms(1) audio_param.select_convs
  by (rule release_ramp_timeline [OF assms(2,3)])

lemma continuous_ads: "continuous_on S (attack_decay A t0)"
  unfolding attack_decay_def by (intro continuous_intros)

lemma continuous_rel: "continuous_on S (release_ramp V T1)"
  unfolding release_ramp_def by (intro continuous_intros)

lemma attack_decay_nonneg: "0 \<le> A \<Longrightarrow> 0 \<le> attack_decay A t0 \<tau>"
proof -
  assume A: "0 \<le> A"
  let ?c1 = "min 1 (max 0 ((\<tau> - t0) * 50))" and ?c2 = "min 1 (max 0 ((\<tau> - t0 - 0.02) * 100))"
  have "?c2 \<le> 2 * ?c1" by (simp add: min_def max_def)
  then have "A * ?c2 \<le> A * (2 * ?c1)" using A by (rule mult_left_mono)
  then show ?thesis by (simp add: attack_decay_def)
qed

lemma attack_decay_attack_mono:
  assumes "0 \<le> A" "t0 \<le> x" "x \<le> y" "y \<le> t0 + 0.02"
  shows "attack_decay A t0 x \<le> attack_decay A t0 y"
proof -
  have x: "min 1 (max 0 ((x - t0) * 50)) = (x - t0) * 50" "min 1 (max 0 ((x - t0 - 0.02) * 100)) = 0"
    using assms by (simp_all add: min_def max_def)
  have y: "min 1 (max 0 ((y - t0) * 50)) = (y - t0) * 50" "min 1 (max 0 ((y - t0 - 0.02) * 100)) = 0"
    using assms by (simp_all add: min_def max_def)
  have "A * ((x - t0) * 50) \<le> A * ((y - t0) * 50)"
    using assms by (intro mult_left_mono) simp_all
  then show ?thesis unfolding attack_decay_def x y by simp
qed

lemma attack_decay_decay_antimono:
  assumes "0 \<le> A" "t0 + 0.02 \<le> x" "x \<le> y" "y \<le> t0 + 0.03"
  shows "attack_decay A t0 y \<le> attack_decay A t0 x"
proof -
  have x: "min 1 (max 0 ((x - t0) * 50)) = 1"
    "min 1 (max 0 ((x - t0 - 0.02) * 100)) = (x - t0 - 0.02) * 100"
    using assms by (simp_all add: min_def max_def)
  have y: "min 1 (max 0 ((y - t0) * 50)) = 1"
    "min 1 (max 0 ((y - t0 - 0.02) * 100)) = (y - t0 - 0.02) * 100"
    using assms by (simp_all add: min_def max_def)
  have "A / 2 * ((x - t0 - 0.02) * 100) \<le> A / 2 * ((y - t0 - 0.02) * 100)"
    using assms by (intro mult_left_mono) simp_all
  then show ?thesis unfolding attack_decay_def x y by simp
qed

lemma release_ramp_antimono:
  assumes "0 \<le> V" "x \<le> y"
  shows "release_ramp V T1 y \<le> release_ramp V T1 x"
proof -
  have "min 1 (max 0 ((x - T1) * 2)) \<le> min 1 (max 0 ((y - T1) * 2))"
    using assms(2) by (simp add: min_def max_def)
  then have "V * (1 - min 1 (max 0 ((y - T1) * 2))) \<le> V * (1 - min 1 (max 0 ((x - T1) * 2)))"
    using assms(1) by (intro mult_left_mono) simp_all
  then show ?thesis by (simp add: release_ramp_def)
qed

lemma gain_at_start:
  assumes "param (nodes s ! e) =
     \<lparr>events = [SetValue 0 t0, LinearRamp A (t0 + 0.02), LinearRamp (0.5 * A) (t0 + 0.02 + 0.01)],
      pvalue = v\<rparr>"
    and "t0 \<le> \<tau>"
  shows "gain_at s e \<tau> = attack_decay A t0 \<tau>"
  unfolding gain_at_def by (rule param_at_attack_decay [OF assms])

lemma envelope_scenario:
  fixes ins k rnd tk
  assumes none: "activeVoices (after ins) k = None"
  defines "s \<equiv> after ins"
  defines "sa \<equiv> state_of (startNote rnd k s)"
  defines "sb \<equiv> state_of (stopNote k (advance tk sa))"
  defines "e \<equiv> length (nodes s) + 5"
  defines "t0 \<equiv> currentTime s"
  defines "T1 \<equiv> (if t0 + render_quantum \<le> tk then tk else t0)"
  defines "V \<equiv> (if t0 + render_quantum \<le> tk then attack_decay rnd t0 (tk - render_quantum) else 1)"
  shows "startNote rnd k s = Normal sa"
    and "activeVoices sa k = Some (length (voices s))"
    and "ampEnv (this (length (voices s)) sa) = Ref e"
    and "stopNote k (advance tk sa) = Normal sb"
    and "currentTime sa = t0" and "currentTime sb = T1"
    and "\<And>\<tau>. t0 \<le> \<tau> \<Longrightarrow> gain_at sa e \<tau> = attack_decay rnd t0 \<tau>"
    and "\<And>\<tau>. T1 \<le> \<tau> \<Longrightarrow> gain_at sb e \<tau> = release_ramp V T1 \<tau>"
    and "get_value e (advance tk sa) = V"
proof -
  let ?v = "length (voices s)"
  have none': "activeVoices s k = None" using none by (simp add: s_def)
  have c: "consistent s" unfolding s_def by (rule consistent_after)
  note p = startNote_props [where rnd = rnd, OF none', folded sa_def]
  have ca: "consistent sa" unfolding sa_def by (rule startNote_consistent [OF c])
  show 1: "startNote rnd k s = Normal sa"
    unfolding sa_def by (rule Normal_state_of) (rule startNote_props(1) [OF none'])
  show 2: "activeVoices sa k = Some ?v" by (simp add: p(2))
  show 3: "ampEnv (this ?v sa) = Ref e" by (simp add: p(10) e_def)
  have ta: "currentTime sa = t0" by (simp add: p(5) t0_def)
  show "currentTime sa = t0" by (rule ta)
  have el: "e < length (nodes sa)" by (simp add: p(4) e_def)
  have pa: "param (nodes sa ! e) =
     \<lparr>events = [SetValue 0 t0, LinearRamp rnd (t0 + 0.02), LinearRamp (0.5 * rnd) (t0 + 0.02 + 0.01)],
      pvalue = 1\<rparr>"
    unfolding sa_def e_def t0_def by (rule startNote_envelope [OF none'])
  show ga: "\<And>\<tau>. t0 \<le> \<tau> \<Longrightarrow> gain_at sa e \<tau> = attack_decay rnd t0 \<tau>"
    by (rule gain_at_start [OF pa])
  let ?s3 = "advance tk sa"
  have c3: "consistent ?s3" by (rule advance_consistent [OF ca])
  have r3: "activeVoices ?s3 k = Some ?v" by (simp add: advance_frame 2)
  note d3 = consistentD [OF c3 r3]
  have la: "live ?v sa" by (rule consistentD(1) [OF ca 2])
  have t3: "this ?v ?s3 = this ?v sa" by (rule advance_live_this [OF la])
  have e3: "ampEnv (this ?v ?s3) = Ref e" by (simp add: t3 3)
  have ct3: "currentTime ?s3 = T1"
    by (simp add: advance_time ta T1_def)
  have pv3: "pvalue (param (nodes ?s3 ! e)) = V"
  proof (cases "t0 + render_quantum \<le> tk")
    case True
    then have "t0 \<le> tk - render_quantum" by simp
    from param_at_attack_decay [OF pa this] True show ?thesis
      by (simp add: advance_param(2) [OF el] ta V_def)
  next
    case False
    then show ?thesis by (simp add: advance_param(2) [OF el] ta V_def pa)
  qed
  show "get_value e (advance tk sa) = V" by (simp add: get_value_def pv3)
  have ev3: "events (param (nodes ?s3 ! e)) =
      [SetValue 0 t0, LinearRamp rnd (t0 + 0.02), LinearRamp (0.5 * rnd) (t0 + 0.02 + 0.01)]"
    by (simp add: advance_param(1) [OF el] pa)
  let ?s4 = "state_of (Voice_stop ?v ?s3)"
  have sb: "sb = ?s4\<lparr>activeVoices := (activeVoices ?s3)(k := None)\<rparr>"
    unfolding sb_def by (simp add: stopNote_present [OF r3 d3(4)])
  show "stopNote k ?s3 = Normal sb"
    unfolding sb by (rule stopNote_present [OF r3 d3(4)])
  note q = Voice_stop_props [OF d3(4)]
  show tb: "currentTime sb = T1" by (simp add: sb q ct3)
  have r0: "0 \<le> release (this ?v ?s3)" using d3(3) by simp
  have pb: "param (nodes sb ! e) =
     \<lparr>events = filter (\<lambda>x. event_time x < T1)
                [SetValue 0 t0, LinearRamp rnd (t0 + 0.02), LinearRamp (0.5 * rnd) (t0 + 0.02 + 0.01)] @
                [SetValue V T1, LinearRamp 0 (T1 + 0.5)],
      pvalue = V\<rparr>"
    using Voice_stop_envelope [OF d3(4) e3 r0] d3(3)
    by (simp add: sb ct3 pv3 ev3)
  show "\<And>\<tau>. T1 \<le> \<tau> \<Longrightarrow> gain_at sb e \<tau> = release_ramp V T1 \<tau>"
  proof -
    fix \<tau> assume le: "T1 \<le> \<tau>"
    have "\<forall>x \<in> set (filter (\<lambda>x. event_time x < T1)
                [SetValue 0 t0, LinearRamp rnd (t0 + 0.02), LinearRamp (0.5 * rnd) (t0 + 0.02 + 0.01)]).
            event_time x \<le> \<tau>"
      using le by auto
    from param_at_release_ramp [OF pb this le]
    show "gain_at sb e \<tau> = release_ramp V T1 \<tau>"
      by (simp add: gain_at_def)
  qed
qed

lemma jump_discontinuous:
  fixes f g :: "real \<Rightarrow> real"
  assumes aT: "a < T" and g: "continuous_on {a..} g"
    and eq: "\<And>\<tau>. a \<le> \<tau> \<Longrightarrow> \<tau> < T \<Longrightarrow> f \<tau> = g \<tau>" and ne: "f T \<noteq> g T"
  shows "\<not> continuous_on {a..} f"
proof
  assume f: "continuous_on {a..} f"
  let ?h = "\<lambda>x. f x - g x"
  have h: "continuous_on {a..} ?h" by (intro continuous_on_diff f g)
  have pos: "0 < \<bar>?h T\<bar>" using ne by simp
  from aT have "T \<in> {a..}" by simp
  with h have "(?h \<longlongrightarrow> ?h T) (at T within {a..})"
    by (simp add: continuous_on_def)
  with pos have "eventually (\<lambda>x. dist (?h x) (?h T) < \<bar>?h T\<bar>) (at T within {a..})"
    by (simp add: tendsto_iff)
  then obtain d where d: "0 < d"
    "\<And>x. x \<in> {a..} \<Longrightarrow> x \<noteq> T \<Longrightarrow> dist x T < d \<Longrightarrow> dist (?h x) (?h T) < \<bar>?h T\<bar>"
    unfolding eventually_at by blast
  let ?x = "max a (T - d / 2)"
  have x: "a \<le> ?x" "?x < T" "dist ?x T < d"
    using aT d(1) by (simp_all add: dist_real_def max_def)
  from eq [OF x(1,2)] have "?h ?x = 0" by simp
  moreover from d(2) [of ?x] x have "dist (?h ?x) (?h T) < \<bar>?h T\<bar>" by simp
  ultimately show False by (simp add: dist_real_def)
qed

text \<open>
  What does hold of the envelope, for a note started in any state the inputs can lead to
  and stopped at any clock time: each of the two schedules is continuous on its own, and
  for a peak amplitude that is not negative the gain rises along the attack ramp, falls
  along the decay ramp and falls along the release ramp.
\<close>

lemma envelope_segments:
  fixes ins k rnd tk
  assumes none: "activeVoices (after ins) k = None"
  defines "sa \<equiv> state_of (startNote rnd k (after ins))"
  defines "sb \<equiv> state_of (stopNote k (advance tk sa))"
  defines "e \<equiv> length (nodes (after ins)) + 5"
  shows "continuous_on {currentTime sa..} (gain_at sa e)"
    and "continuous_on {currentTime sb..} (gain_at sb e)"
    and "\<And>x y. 0 \<le> rnd \<Longrightarrow> currentTime sa \<le> x \<Longrightarrow> x \<le> y \<Longrightarrow> y \<le> currentTime sa + 0.02 \<Longrightarrow>
           gain_at sa e x \<le> gain_at sa e y"
    and "\<And>x y. 0 \<le> rnd \<Longrightarrow> currentTime sa + 0.02 \<le> x \<Longrightarrow> x \<le> y \<Longrightarrow>
           y \<le> currentTime sa + 0.02 + 0.01 \<Longrightarrow> gain_at sa e y \<le> gain_at sa e x"
    and "\<And>x y. 0 \<le> rnd \<Longrightarrow> currentTime sb \<le> x \<Longrightarrow> x \<le> y \<Longrightarrow>
           gain_at sb e y \<le> gain_at sb e x"
proof -
  let ?t0 = "currentTime (after ins)"
  let ?T1 = "if ?t0 + render_quantum \<le> tk then tk else ?t0"
  let ?V = "if ?t0 + render_quantum \<le> tk then attack_decay rnd ?t0 (tk - render_quantum) else 1"
  note f5 = envelope_scenario(5) [OF none, where rnd = rnd, folded sa_def]
  note f6 = envelope_scenario(6) [OF none, where rnd = rnd and tk = tk, folded sa_def, folded sb_def]
  note f7 = envelope_scenario(7) [OF none, where rnd = rnd, folded sa_def e_def]
  note f8 = envelope_scenario(8) [OF none, where rnd = rnd and tk = tk,
      folded sa_def, folded sb_def e_def]
  have "continuous_on {?t0..} (gain_at sa e) = continuous_on {?t0..} (attack_decay rnd ?t0)"
    by (rule continuous_on_cong [OF refl]) (simp add: f7)
  then show "continuous_on {currentTime sa..} (gain_at sa e)"
    unfolding f5 by (simp add: continuous_ads)
  have "continuous_on {?T1..} (gain_at sb e) = continuous_on {?T1..} (release_ramp ?V ?T1)"
  proof (rule continuous_on_cong [OF refl])
    fix x assume "x \<in> {?T1..}"
    then have "?T1 \<le> x" by simp
    then show "gain_at sb e x = release_ramp ?V ?T1 x" by (rule f8)
  qed
  then show "continuous_on {currentTime sb..} (gain_at sb e)"
    unfolding f6 by (simp add: continuous_rel)
  show "\<And>x y. 0 \<le> rnd \<Longrightarrow> currentTime sa \<le> x \<Longrightarrow> x \<le> y \<Longrightarrow> y \<le> currentTime sa + 0.02 \<Longrightarrow>
           gain_at sa e x \<le> gain_at sa e y"
    unfolding f5 by (simp add: f7 attack_decay_attack_mono)
  show "\<And>x y. 0 \<le> rnd \<Longrightarrow> currentTime sa + 0.02 \<le> x \<Longrightarrow> x \<le> y \<Longrightarrow>
           y \<le> currentTime sa + 0.02 + 0.01 \<Longrightarrow> gain_at sa e y \<le> gain_at sa e x"
    unfolding f5 by (simp add: f7 attack_decay_decay_antimono)
  show "\<And>x y. 0 \<le> rnd \<Longrightarrow> currentTime sb \<le> x \<Longrightarrow> x \<le> y \<Longrightarrow>
           gain_at sb e y \<le> gain_at sb e x"
  proof -
    fix x y assume A: "0 \<le> rnd" and le: "currentTime sb \<le> x" "x \<le> y"
    from le have l: "?T1 \<le> x" "?T1 \<le> y" unfolding f6 by simp_all
    have V: "0 \<le> ?V" using A by (simp add: attack_decay_nonneg)
    show "gain_at sb e y \<le> gain_at sb e x"
      unfolding f8 [OF l(1)] f8 [OF l(2)] by (rule release_ramp_antimono [OF V le(2)])
  qed
qed

lemma gain_at_events:
  assumes "events (param (nodes s ! e)) =
     [SetValue 0 t0, LinearRamp A (t0 + 0.02), LinearRamp (0.5 * A) (t0 + 0.02 + 0.01)]"
    and "t0 \<le> \<tau>"
  shows "gain_at s e \<tau> = attack_decay A t0 \<tau>"
  unfolding gain_at_def param_at_def assms(1) by (rule attack_decay_timeline [OF assms(2)])

lemma after_Nil: "after [] = synth_init"
  by (simp add: after_def)

lemma stale_value: "attack_decay (4 / 5) 0 (1 / 100 - render_quantum) = 626 / 2205"
  by (simp add: attack_decay_def render_quantum_def)

lemma tap_scenario:
  defines "sb \<equiv> state_of (stopNote 60 (advance 0.01 held60))"
  shows "stopNote 60 (advance 0.01 held60) = Normal sb"
    and "currentTime sb = 0.01"
    and "\<And>\<tau>. 0 \<le> \<tau> \<Longrightarrow> gain_at held60 7 \<tau> = attack_decay 0.8 0 \<tau>"
    and "\<And>\<tau>. 0.01 \<le> \<tau> \<Longrightarrow> gain_at sb 7 \<tau> = release_ramp (626 / 2205) 0.01 \<tau>"
    and "get_value 7 (advance 0.01 held60) = 626 / 2205"
    and "currentTime (advance 0.01 held60) = 0.01"
proof -
  have h: "activeVoices (after []) 60 = None" by (simp add: after_Nil)
  have q: "(0::real) + render_quantum \<le> 0.01" by (simp add: render_quantum_def)
  note f4 = envelope_scenario(4) [OF h, where rnd = "0.8" and tk = "0.01",
      unfolded after_Nil, folded held60_def, folded sb_def]
  note f6 = envelope_scenario(6) [OF h, where rnd = "0.8" and tk = "0.01",
      unfolded after_Nil, folded held60_def, folded sb_def]
  note f7 = envelope_scenario(7) [OF h, where rnd = "0.8",
      unfolded after_Nil, folded held60_def]
  note f8 = envelope_scenario(8) [OF h, where rnd = "0.8" and tk = "0.01",
      unfolded after_Nil, folded held60_def, folded sb_def]
  note f9 = envelope_scenario(9) [OF h, where rnd = "0.8" and tk = "0.01",
      unfolded after_Nil, folded held60_def]
  show "stopNote 60 (advance 0.01 held60) = Normal sb" by (rule f4)
  show "currentTime sb = 0.01" using f6 q by simp
  show "\<And>\<tau>. 0 \<le> \<tau> \<Longrightarrow> gain_at held60 7 \<tau> = attack_decay 0.8 0 \<tau>"
    using f7 by simp
  show "\<And>\<tau>. 0.01 \<le> \<tau> \<Longrightarrow> gain_at sb 7 \<tau> = release_ramp (626 / 2205) 0.01 \<tau>"
    using f8 q by (simp add: stale_value)
  show "get_value 7 (advance 0.01 held60) = 626 / 2205"
    using f9 q by (simp add: stale_value)
  show "currentTime (advance 0.01 held60) = 0.01"
    using q by (simp add: advance_time held60_props)
qed

text \<open>
  C6 fails at the stop time. Start note 60 with peak amplitude 0.8 at time 0, let the
  clock reach 0.01 (the middle of the attack ramp) and stop the note. Both calls return
  normally. The schedule of \<^verbatim>\<open>start()\<close> is continuous, the schedule of \<^verbatim>\<open>stop()\<close> is
  continuous from the stop time on, but they do not meet: just before the stop time the
  envelope is at 0.4, and at the stop time it is at 626 / 2205 (about 0.284), the value
  one render quantum earlier that \<^verbatim>\<open>stop()\<close> read from the \<^verbatim>\<open>value\<close> getter and pinned.
  The envelope as a function of time is not continuous.
\<close>

theorem envelope_jumps_at_stop:
  "\<exists>sa sb.
     startNote 0.8 60 synth_init = Normal sa \<and> ampEnv (this 0 sa) = Ref 7 \<and>
     currentTime sa = 0 \<and>
     stopNote 60 (advance 0.01 sa) = Normal sb \<and> currentTime sb = 0.01 \<and>
     continuous_on {0..} (gain_at sa 7) \<and>
     continuous_on {0.01..} (gain_at sb 7) \<and>
     gain_at sa 7 0.01 = 0.4 \<and>
     envelope sa sb 7 0.01 = 626 / 2205 \<and>
     \<not> continuous_on {0..} (envelope sa sb 7)"
proof -
  let ?sb = "state_of (stopNote 60 (advance 0.01 held60))"
  note f = tap_scenario
  have h: "activeVoices synth_init 60 = None" by simp
  have 1: "startNote 0.8 60 synth_init = Normal held60"
    unfolding held60_def by (rule Normal_state_of) (rule startNote_props(1) [OF h])
  have 2: "ampEnv (this 0 held60) = Ref 7" by (simp add: held60_props)
  have 3: "currentTime held60 = 0" by (rule held60_props)
  have c1: "continuous_on {0..} (gain_at held60 7)"
  proof -
    have "continuous_on {0..} (gain_at held60 7) = continuous_on {0..} (attack_decay 0.8 0)"
      by (rule continuous_on_cong [OF refl]) (simp add: f(3))
    then show ?thesis by (simp add: continuous_ads)
  qed
  have c2: "continuous_on {0.01..} (gain_at ?sb 7)"
  proof -
    have "continuous_on {0.01..} (gain_at ?sb 7) =
          continuous_on {0.01..} (release_ramp (626 / 2205) 0.01)"
    proof (rule continuous_on_cong [OF refl])
      fix x :: real assume "x \<in> {0.01..}"
      then have "0.01 \<le> x" by simp
      then show "gain_at ?sb 7 x = release_ramp (626 / 2205) 0.01 x" by (rule f(4))
    qed
    then show ?thesis by (simp add: continuous_rel)
  qed
  have 4: "gain_at held60 7 0.01 = 0.4"
    by (simp add: f(3) attack_decay_def)
  have 5: "envelope held60 ?sb 7 0.01 = 626 / 2205"
    unfolding envelope_def f(2) using f(4) [of "0.01"] by (simp add: release_ramp_def)
  have 6: "\<not> continuous_on {0..} (envelope held60 ?sb 7)"
  proof (rule jump_discontinuous [where T = "0.01" and g = "attack_decay 0.8 0"])
    show "(0::real) < 0.01" by simp
    show "continuous_on {0..} (attack_decay 0.8 0)" by (rule continuous_ads)
    show "\<And>\<tau>. 0 \<le> \<tau> \<Longrightarrow> \<tau> < 0.01 \<Longrightarrow> envelope held60 ?sb 7 \<tau> = attack_decay 0.8 0 \<tau>"
      unfolding envelope_def f(2) by (simp add: f(3))
    show "envelope held60 ?sb 7 0.01 \<noteq> attack_decay 0.8 0 0.01"
      unfolding 5 by (simp add: attack_decay_def)
  qed
  show ?thesis
    apply (rule exI [of _ held60])
    apply (rule exI [of _ ?sb])
    apply (intro conjI)
    apply (rule 1)
    apply (rule 2)
    apply (rule 3)
    apply (rule f(1))
    apply (rule f(2))
    apply (rule c1)
    apply (rule c2)
    apply (rule 4)
    apply (rule 5)
    apply (rule 6)
    done
qed

text \<open>
  C2 fails at the pinned value. \<^verbatim>\<open>stop()\<close> cancels first, ramps to 0 over 0.5 s and
  halts the three oscillators 0.5 + 0.01 s after the current time, but the value it pins
  is the one the \<^verbatim>\<open>value\<close> getter returns, not the envelope's value at the current
  time. With note 60 started at time 0 with peak amplitude 0.8: stopped when the clock
  reads 0.01 it pins 626 / 2205 where the envelope is at 0.4; stopped before any quantum
  has been rendered it pins the default 1 where the envelope is at 0.
\<close>

theorem stop_pins_stale_value:
  "(\<exists>s'. currentTime (advance 0.01 held60) = 0.01 \<and>
      ampEnv (this 0 (advance 0.01 held60)) = Ref 7 \<and>
      Voice_stop 0 (advance 0.01 held60) = Normal s' \<and>
      calls s' = calls (advance 0.01 held60) @
        [CancelScheduledValues 7 0.01, SetValueAtTime 7 (626 / 2205) 0.01,
         LinearRampToValueAtTime 7 0 0.51, Stop 2 0.52, Stop 3 0.52, Stop 5 0.52] \<and>
      gain_at (advance 0.01 held60) 7 0.01 = 0.4) \<and>
   (\<exists>s'. Voice_stop 0 held60 = Normal s' \<and>
      calls s' = calls held60 @
        [CancelScheduledValues 7 0, SetValueAtTime 7 1 0,
         LinearRampToValueAtTime 7 0 0.5, Stop 2 0.51, Stop 3 0.51, Stop 5 0.51] \<and>
      gain_at held60 7 0 = 0)"
proof (rule conjI)
  let ?s = "advance 0.01 held60"
  have c: "consistent held60" using consistent_after [of "[NoteOn 0.8 60]"]
    unfolding after_held60 .
  have r: "activeVoices held60 60 = Some 0" by (simp add: held60_props)
  note d = consistentD [OF c r]
  have l: "live 0 ?s" by (rule advance_live [OF d(1)])
  have t: "this 0 ?s = this 0 held60" by (rule advance_live_this [OF d(1)])
  have snd: "sounding 0 ?s" using l by (simp add: live_def)
  have rel: "release (this 0 ?s) = 0.5" unfolding t by (simp add: held60_props)
  have ev: "events (param (nodes ?s ! 7)) = events (param (nodes held60 ! 7))"
    by (rule advance_param(1)) (simp add: held60_props)
  have h: "activeVoices synth_init 60 = None" by simp
  have ev0: "events (param (nodes held60 ! 7)) =
     [SetValue 0 0, LinearRamp 0.8 (0 + 0.02), LinearRamp (0.5 * 0.8) (0 + 0.02 + 0.01)]"
    using startNote_envelope [OF h, of "0.8", folded held60_def] by simp
  have g: "gain_at ?s 7 0.01 = 0.4"
    using gain_at_events [of ?s 7 0 "0.8" "0.01", unfolded ev, OF ev0]
    by (simp add: attack_decay_def)
  have ct: "currentTime ?s = 0.01" by (rule tap_scenario(6))
  have gv: "get_value 7 ?s = 626 / 2205" by (rule tap_scenario(5))
  from Voice_stop_calls [OF snd rel] obtain e a b c s' where x:
    "ampEnv (this 0 ?s) = Ref e" "osc (this 0 ?s) = Ref a"
    "osc2 (this 0 ?s) = Ref b" "osc3 (this 0 ?s) = Ref c"
    "Voice_stop 0 ?s = Normal s'"
    "calls s' = calls ?s @
       [CancelScheduledValues e (currentTime ?s),
        SetValueAtTime e (get_value e ?s) (currentTime ?s),
        LinearRampToValueAtTime e 0 (currentTime ?s + 0.5),
        Stop a (currentTime ?s + 0.5 + 0.01),
        Stop b (currentTime ?s + 0.5 + 0.01),
        Stop c (currentTime ?s + 0.5 + 0.01)]"
    by blast
  from x(1-4) have i: "e = 7" "a = 2" "b = 3" "c = 5"
    unfolding t by (simp_all add: held60_props)
  have cl: "calls s' = calls ?s @
        [CancelScheduledValues 7 0.01, SetValueAtTime 7 (626 / 2205) 0.01,
         LinearRampToValueAtTime 7 0 0.51, Stop 2 0.52, Stop 3 0.52, Stop 5 0.52]"
    unfolding x(6) i ct gv by simp
  show "\<exists>s'. currentTime ?s = 0.01 \<and>
      ampEnv (this 0 ?s) = Ref 7 \<and>
      Voice_stop 0 ?s = Normal s' \<and>
      calls s' = calls ?s @
        [CancelScheduledValues 7 0.01, SetValueAtTime 7 (626 / 2205) 0.01,
         LinearRampToValueAtTime 7 0 0.51, Stop 2 0.52, Stop 3 0.52, Stop 5 0.52] \<and>
      gain_at ?s 7 0.01 = 0.4"
    apply (rule exI [of _ s'])
    apply (intro conjI)
    apply (rule ct)
    apply (rule x(1) [unfolded i])
    apply (rule x(5))
    apply (rule cl)
    apply (rule g)
    done
next
  have snd: "sounding 0 held60" by (rule held60_props)
  have rel: "release (this 0 held60) = 0.5" by (simp add: held60_props)
  have h: "activeVoices synth_init 60 = None" by simp
  have p: "param (nodes held60 ! 7) =
     \<lparr>events = [SetValue 0 0, LinearRamp 0.8 (0 + 0.02), LinearRamp (0.5 * 0.8) (0 + 0.02 + 0.01)],
      pvalue = 1\<rparr>"
    using startNote_envelope [OF h, of "0.8", folded held60_def] by simp
  have v: "get_value 7 held60 = 1" by (simp add: get_value_def p)
  have g: "gain_at held60 7 0 = 0"
    using gain_at_start [OF p, of 0] by (simp add: attack_decay_def)
  from Voice_stop_calls [OF snd rel]
  show "\<exists>s'. Voice_stop 0 held60 = Normal s' \<and>
      calls s' = calls held60 @
        [CancelScheduledValues 7 0, SetValueAtTime 7 1 0,
         LinearRampToValueAtTime 7 0 0.5, Stop 2 0.51, Stop 3 0.51, Stop 5 0.51] \<and>
      gain_at held60 7 0 = 0"
    using g by (auto simp add: held60_props v)
qed

end
